theory Spec2Isabelle
  imports Complex_Main "HOL-Library.AList" "HOL-Library.Multiset"
begin

section \<open>Python strings\<close>

text \<open>
  A Python \<open>str\<close> is a sequence of Unicode code points; it is modelled as a list of
  natural numbers, one per code point, so that \<open>len\<close>, slicing and \<open>in\<close> count what
  Python counts. \<open>cps\<close> turns an ASCII literal into its code points.
\<close>

type_synonym pystr = "nat list"

definition cps :: "string \<Rightarrow> pystr" where
  "cps s = map of_char s"

text \<open>\<open>needle in haystack\<close> for strings: \<open>py_in needle haystack\<close>.\<close>

fun startswith :: "pystr \<Rightarrow> pystr \<Rightarrow> bool" where
  "startswith s [] = True"
| "startswith [] (c # w) = False"
| "startswith (d # s) (c # w) = (d = c \<and> startswith s w)"

fun py_in :: "pystr \<Rightarrow> pystr \<Rightarrow> bool" where
  "py_in w [] = (w = [])"
| "py_in w (c # s) = (startswith (c # s) w \<or> py_in w s)"

text \<open>
  \<open>str.lower()\<close> is a builtin of the interpreter. It rewrites the string code point by
  code point: an ASCII capital becomes the small letter, any other ASCII code point stays,
  and a code point beyond ASCII is replaced by what the Unicode case table of the
  interpreter gives for it (one to three code points; for capital sigma the table looks at
  the text before and after it). The table is not part of the repository and is a
  parameter \<open>tbl\<close>, given the text before, the code point and the text after.
\<close>

type_synonym casetab = "pystr \<Rightarrow> nat \<Rightarrow> pystr \<Rightarrow> pystr"

definition lower_cp :: "casetab \<Rightarrow> pystr \<Rightarrow> nat \<Rightarrow> pystr \<Rightarrow> pystr" where
  "lower_cp tbl pre c post =
     (if 65 \<le> c \<and> c \<le> 90 then [c + 32]
      else if c < 128 then [c]
      else tbl pre c post)"

fun lower_from :: "casetab \<Rightarrow> pystr \<Rightarrow> pystr \<Rightarrow> pystr \<Rightarrow> pystr" where
  "lower_from tbl pre [] post = []"
| "lower_from tbl pre (c # s) post =
     lower_cp tbl pre c (s @ post) @ lower_from tbl (pre @ [c]) s post"

definition str_lower :: "casetab \<Rightarrow> pystr \<Rightarrow> pystr" where
  "str_lower tbl s = lower_from tbl [] s []"

text \<open>The case table that leaves every code point beyond ASCII as it is.\<close>

definition caseless :: casetab where
  "caseless pre c post = [c]"

text \<open>\<open>str(n)\<close> for a non-negative integer: its decimal digits.\<close>

fun str_of_nat :: "nat \<Rightarrow> pystr" where
  "str_of_nat n = (if n < 10 then [48 + n] else str_of_nat (n div 10) @ [48 + n mod 10])"

declare str_of_nat.simps [simp del]

text \<open>
  \<open>str.strip()\<close> removes the leading and trailing code points for which \<open>str.isspace\<close>
  holds.
\<close>

definition isspace :: "nat \<Rightarrow> bool" where
  "isspace c \<longleftrightarrow>
     (9 \<le> c \<and> c \<le> 13) \<or> (28 \<le> c \<and> c \<le> 32) \<or> c = 0x85 \<or> c = 0xA0 \<or> c = 0x1680
     \<or> (0x2000 \<le> c \<and> c \<le> 0x200A) \<or> c = 0x2028 \<or> c = 0x2029 \<or> c = 0x202F
     \<or> c = 0x205F \<or> c = 0x3000"

definition strip :: "pystr \<Rightarrow> pystr" where
  "strip s = rev (dropWhile isspace (rev (dropWhile isspace s)))"

text \<open>
  \<open>s.split(sep)\<close> for a separator of one code point: the pieces between the
  separators, empty pieces included; the result is never empty.
\<close>

fun str_split :: "nat \<Rightarrow> pystr \<Rightarrow> pystr list" where
  "str_split sep [] = [[]]"
| "str_split sep (c # s) =
     (if c = sep then [] # str_split sep s
      else (case str_split sep s of
              [] \<Rightarrow> [[c]]
            | p # ps \<Rightarrow> (c # p) # ps))"

section \<open>The collaboration detector (\<open>sources/router.py\<close>)\<close>

definition collaboration_keywords :: "pystr list" where
  "collaboration_keywords =
     [cps ''and then'', cps ''then'', cps ''after'', cps ''next'', cps ''followed by'',
      cps ''and also'', cps ''also'', cps ''and'', cps ''both'', cps ''simultaneously'',
      [0x7136, 0x5F8C], [0x63A5, 0x8457], [0x4E4B, 0x5F8C], [0x518D], [0x5148],
      [0x4E26, 0x4E14], [0x540C, 0x6642], [0x9084, 0x8981], [0x4E5F, 0x8981],
      [0x4E00, 0x8D77]]"

definition action_words :: "pystr list" where
  "action_words =
     [cps ''search'', cps ''find'', cps ''write'', cps ''create'', cps ''build'', cps ''make'',
      cps ''analyze'', cps ''download'', cps ''save'', cps ''send'', cps ''read'',
      cps ''process'',
      [0x641C, 0x5C0B], [0x67E5, 0x627E], [0x5BEB], [0x5275, 0x5EFA], [0x5EFA, 0x7ACB],
      [0x88FD, 0x4F5C], [0x5206, 0x6790], [0x4E0B, 0x8F09], [0x4FDD, 0x5B58],
      [0x767C, 0x9001], [0x8B80, 0x53D6], [0x8655, 0x7406]]"

definition exclusion_words :: "pystr list" where
  "exclusion_words =
     [cps ''only'', cps ''just'', cps ''simply'', cps ''single'', cps ''alone'',
      [0x53EA], [0x50C5], [0x55AE, 0x7D14], [0x55AE, 0x7368], [0x7368, 0x81EA]]"

definition strong_keywords :: "pystr list" where
  "strong_keywords =
     [cps ''and then'', [0x7136, 0x5F8C], [0x63A5, 0x8457], cps ''and also'',
      [0x4E26, 0x4E14], [0x540C, 0x6642]]"

definition detect_collaborative_task :: "casetab \<Rightarrow> pystr \<Rightarrow> bool" where
  "detect_collaborative_task tbl text =
     (let text_lower = str_lower tbl text in
      if list_ex (\<lambda>word. py_in word text_lower) exclusion_words then False
      else
        let found_keywords = filter (\<lambda>keyword. py_in keyword text_lower) collaboration_keywords;
            action_count = length (filter (\<lambda>word. py_in word text_lower) action_words)
        in if found_keywords \<noteq> [] \<and> 2 \<le> action_count then True
           else if list_ex (\<lambda>keyword. py_in keyword text_lower) strong_keywords then True
           else if 3 \<le> action_count then True
           else False)"

section \<open>Complexity estimate and task decomposition (\<open>sources/router.py\<close>)\<close>

text \<open>
  \<open>sorted(xs, key=f, reverse=True)\<close>: the interpreter reverses the list, sorts it
  stably in ascending order and reverses it again, so the result is descending and items of
  equal key keep their order.
\<close>

definition sorted_reverse :: "('a \<Rightarrow> real) \<Rightarrow> 'a list \<Rightarrow> 'a list" where
  "sorted_reverse key xs = rev (sort_key key (rev xs))"

text \<open>
  \<open>estimate_complexity\<close>. The statistical classifier is outside the repository: it is
  the parameter \<open>predict\<close>, which either raises (\<open>Inl\<close>, with the message) or returns
  a list of labels with confidences.
\<close>

definition estimate_complexity ::
  "(pystr \<Rightarrow> pystr + (pystr \<times> real) list) \<Rightarrow> pystr \<Rightarrow> pystr" where
  "estimate_complexity predict text =
     (case predict text of
        Inl e \<Rightarrow> cps ''LOW''
      | Inr predictions \<Rightarrow>
          (case sorted_reverse snd predictions of
             [] \<Rightarrow> cps ''LOW''
           | (complexity, confidence) # rest \<Rightarrow>
               if confidence < 0.5 then cps ''HIGH''
               else if complexity = cps ''HIGH'' then cps ''HIGH''
               else if complexity = cps ''LOW'' then cps ''LOW''
               else cps ''LOW''))"

record AgentTask =
  task_id :: pystr
  agent_type :: pystr
  description :: pystr
  dependencies :: "pystr list"
  priority :: int
  timeout :: int
  retry_count :: int
  max_retries :: int

text \<open>The constructor call \<open>AgentTask(task_id, agent_type, description, dependencies)\<close>
  with the defaults of the dataclass for the other fields.\<close>

definition new_task :: "pystr \<Rightarrow> pystr \<Rightarrow> pystr \<Rightarrow> pystr list \<Rightarrow> AgentTask" where
  "new_task tid atype descr deps =
     \<lparr>task_id = tid, agent_type = atype, description = descr, dependencies = deps,
      priority = 1, timeout = 300, retry_count = 0, max_retries = 2\<rparr>"

definition detect_task_type :: "casetab \<Rightarrow> pystr \<Rightarrow> pystr" where
  "detect_task_type tbl text =
     (let text_lower = str_lower tbl text in
      if list_ex (\<lambda>word. py_in word text_lower)
           [cps ''write'', cps ''code'', cps ''script'', cps ''program'', cps ''debug'',
            cps ''create app'']
      then cps ''code''
      else if list_ex (\<lambda>word. py_in word text_lower)
           [cps ''search'', cps ''browse'', cps ''web'', cps ''find online'', cps ''look up'']
      then cps ''web''
      else if list_ex (\<lambda>word. py_in word text_lower)
           [cps ''file'', cps ''folder'', cps ''directory'', cps ''save'', cps ''organize'']
      then cps ''files''
      else cps ''talk'')"

text \<open>
  The loop of \<open>decompose_collaborative_task\<close> over the pieces of \<open>text.split('.')\<close>,
  with its counter \<open>task_id\<close> (here \<open>n\<close>) and the list \<open>tasks\<close> built so far.
\<close>

fun decompose_loop ::
  "casetab \<Rightarrow> pystr list \<Rightarrow> nat \<Rightarrow> AgentTask list \<Rightarrow> AgentTask list" where
  "decompose_loop tbl [] n tasks = tasks"
| "decompose_loop tbl (s # sentences) n tasks =
     (let sentence = strip s in
      if sentence = [] then decompose_loop tbl sentences n tasks
      else
        let atype = detect_task_type tbl sentence in
        if atype \<noteq> [] then
          decompose_loop tbl sentences (n + 1)
            (tasks @ [(new_task (cps ''task_'' @ str_of_nat n) atype sentence [])
                        \<lparr>priority := 1\<rparr>])
        else decompose_loop tbl sentences n tasks)"

definition decompose_collaborative_task :: "casetab \<Rightarrow> pystr \<Rightarrow> AgentTask list" where
  "decompose_collaborative_task tbl text = decompose_loop tbl (str_split 46 text) 0 []"

section \<open>The collaboration scheduler (\<open>sources/agents/collaborative_agent.py\<close>)\<close>

text \<open>
  \<open>TaskResult\<close>; its fields \<open>task_id\<close> and \<open>agent_type\<close> carry the prefix
  \<open>result_\<close> here, because \<open>AgentTask\<close> has fields of the same names.
\<close>

record TaskResult =
  result_task_id :: pystr
  result_agent_type :: pystr
  success :: bool
  result :: pystr
  reasoning :: pystr
  execution_time :: real
  error_message :: "pystr option"

text \<open>
  The values that the scheduler stores in the shared context: the result text of a task and
  its success flag. The dictionary \<open>SharedContext.data\<close> is an association list in
  insertion order, which is the order in which \<open>items()\<close> yields it; storing under a
  key that is present replaces the value in place (\<open>AList.update\<close>).
\<close>

datatype pyval = Str pystr | Bool bool

type_synonym context_data = "(pystr \<times> pyval) list"

text \<open>
  A worker (\<open>Agent\<close>) is not part of the scheduler. Its \<open>process(prompt, None)\<close> is a
  function of the state of the world \<open>'w\<close> outside the scheduler (the worker's own state,
  the language model, the network) and of the prompt: it either raises, with the text
  \<open>str(e)\<close> of the exception, or returns the answer and the reasoning, and
  \<open>get_success\<close> read after the call gives the flag; it leaves a new state of the world.
  One call is one step: the interleaving of several calls that are in flight at once, and
  with it the semaphore of \<open>max_parallel_tasks\<close> slots that bounds their number, is
  outside this model. \<open>time.time()\<close> reads the clock of the world.
\<close>

datatype outcome = Raises pystr | Returns pystr pystr bool

type_synonym 'w agent = "'w \<Rightarrow> pystr \<Rightarrow> outcome \<times> 'w"

record 'w CollaborativeAgent =
  agents :: "pystr \<rightharpoonup> 'w agent"
  max_parallel_tasks :: nat
  time_time :: "'w \<Rightarrow> real \<times> 'w"

record 'w state =
  world :: 'w
  shared_context :: context_data

definition shared_context_set :: "pystr \<Rightarrow> pyval \<Rightarrow> 'w state \<Rightarrow> 'w state" where
  "shared_context_set key v st = st\<lparr>shared_context := AList.update key v (shared_context st)\<rparr>"

definition get_all :: "'w state \<Rightarrow> context_data" where
  "get_all st = shared_context st"

definition shared_context_get :: "pystr \<Rightarrow> 'w state \<Rightarrow> pyval option" where
  "shared_context_get key st = map_of (shared_context st) key"

definition format_value :: "pyval \<Rightarrow> pystr" where
  "format_value v = (case v of Str s \<Rightarrow> s | Bool b \<Rightarrow> (if b then cps ''True'' else cps ''False''))"

definition prepare_task_prompt :: "AgentTask \<Rightarrow> context_data \<Rightarrow> pystr" where
  "prepare_task_prompt task context_data =
     cps ''Task: '' @ description task @ [10, 10]
     @ (if context_data \<noteq> [] then
          cps ''Available context from previous tasks:'' @ [10]
          @ concat (map (\<lambda>(key, v).
               let v' = (case v of
                           Str s \<Rightarrow> if 200 < length s then Str (take 200 s @ cps ''...'') else v
                         | Bool b \<Rightarrow> v)
               in cps ''- '' @ key @ cps '': '' @ format_value v' @ [10]) context_data)
          @ [10]
        else [])
     @ cps ''Please complete this task using the available context information.''"

definition failed_result :: "AgentTask \<Rightarrow> real \<Rightarrow> pystr \<Rightarrow> TaskResult" where
  "failed_result task t msg =
     \<lparr>result_task_id = task_id task, result_agent_type = agent_type task, success = False,
      result = [], reasoning = [], execution_time = t, error_message = Some msg\<rparr>"

definition execute_task ::
  "'w CollaborativeAgent \<Rightarrow> AgentTask \<Rightarrow> context_data \<Rightarrow> 'w state \<Rightarrow> TaskResult \<times> 'w state" where
  "execute_task self task context_data st =
     (case time_time self (world st) of (start_time, w1) \<Rightarrow>
      (case agents self (agent_type task) of
         None \<Rightarrow>
           (case time_time self w1 of (now, w2) \<Rightarrow>
              (failed_result task (now - start_time)
                 (cps ''Agent type '' @ agent_type task @ cps '' not available''),
               st\<lparr>world := w2\<rparr>))
       | Some agent \<Rightarrow>
           (let prompt = prepare_task_prompt task context_data in
            case agent w1 prompt of
              (Raises error_msg, w2) \<Rightarrow>
                (case time_time self w2 of (now, w3) \<Rightarrow>
                   (failed_result task (now - start_time) error_msg, st\<lparr>world := w3\<rparr>))
            | (Returns res reas get_success, w2) \<Rightarrow>
                (case time_time self w2 of (now, w3) \<Rightarrow>
                   (\<lparr>result_task_id = task_id task, result_agent_type = agent_type task,
                     success = get_success, result = res, reasoning = reas,
                     execution_time = now - start_time, error_message = None\<rparr>,
                    shared_context_set (cps ''task_'' @ task_id task @ cps ''_success'') (Bool get_success)
                      (shared_context_set (cps ''task_'' @ task_id task @ cps ''_result'') (Str res)
                         (st\<lparr>world := w3\<rparr>)))))))"


text \<open>
  \<open>asyncio.gather(..., return_exceptions=True)\<close> over \<open>execute_with_semaphore\<close>:
  the coroutines are started in the order of the list and each yields either the exception
  it raised (\<open>Inl\<close>) or its \<open>TaskResult\<close> (\<open>Inr\<close>); \<open>execute_task\<close> catches every
  exception itself, so it always yields a result.
\<close>

fun gather ::
  "'w CollaborativeAgent \<Rightarrow> context_data \<Rightarrow> AgentTask list \<Rightarrow> 'w state
   \<Rightarrow> (pystr + TaskResult) list \<times> 'w state" where
  "gather self context_data [] st = ([], st)"
| "gather self context_data (task # tasks) st =
     (case execute_task self task context_data st of (r, st1) \<Rightarrow>
      case gather self context_data tasks st1 of (rs, st2) \<Rightarrow> (Inr r # rs, st2))"

definition execute_parallel ::
  "'w CollaborativeAgent \<Rightarrow> AgentTask list \<Rightarrow> 'w state \<Rightarrow> TaskResult list \<times> 'w state" where
  "execute_parallel self tasks st =
     (let context_data = get_all st in
      case gather self context_data tasks st of (results, st') \<Rightarrow>
        (map (\<lambda>(task, r). case r of
                 Inl e \<Rightarrow> failed_result task 0 e
               | Inr task_result \<Rightarrow> task_result) (zip tasks results),
         st'))"

text \<open>
  \<open>execute_sequential\<close>. The retry runs with the context read before the first attempt.
  The code increments \<open>retry_count\<close> on the task object itself; here the tasks of a list
  are values, so the increment reaches the retry and nothing else: a list that holds the
  same object twice, and a second run over the same objects, are outside the model.
\<close>

fun execute_sequential ::
  "'w CollaborativeAgent \<Rightarrow> AgentTask list \<Rightarrow> 'w state \<Rightarrow> TaskResult list \<times> 'w state" where
  "execute_sequential self [] st = ([], st)"
| "execute_sequential self (task # tasks) st =
     (let context_data = get_all st in
      case execute_task self task context_data st of (r, st1) \<Rightarrow>
      case (if \<not> success r \<and> retry_count task < max_retries task
            then execute_task self (task\<lparr>retry_count := retry_count task + 1\<rparr>) context_data st1
            else (r, st1)) of (r', st2) \<Rightarrow>
      case execute_sequential self tasks st2 of (results, st3) \<Rightarrow> (r' # results, st3))"

text \<open>
  \<open>_sort_tasks_by_dependencies\<close>. \<open>visit\<close> is the inner function, \<open>visit_deps\<close> its
  loop over the dependencies and \<open>visit_tasks\<close> the loop over the tasks; the pair is the
  set \<open>visited\<close> and the list \<open>result\<close>. \<open>visit\<close> calls itself, one call inside the other
  along a chain of dependencies, and the interpreter raises \<open>RecursionError\<close> when the
  calls are nested deeper than its recursion limit allows; nothing in the scheduler catches
  it. The number \<open>frames\<close> is how many calls of \<open>visit\<close>, one inside the other, the
  interpreter still allows where the sort is called: the limit (1000 unless changed) less
  the calls that are already open.
\<close>

datatype error = RecursionError

definition task_dict :: "AgentTask list \<Rightarrow> (pystr \<rightharpoonup> AgentTask)" where
  "task_dict tasks = fold (\<lambda>task d. d(task_id task \<mapsto> task)) tasks Map.empty"

fun visit ::
  "AgentTask list \<Rightarrow> nat \<Rightarrow> pystr \<Rightarrow> pystr set \<times> AgentTask list
   \<Rightarrow> error + pystr set \<times> AgentTask list"
  and visit_deps ::
  "AgentTask list \<Rightarrow> nat \<Rightarrow> pystr list \<Rightarrow> pystr set \<times> AgentTask list
   \<Rightarrow> error + pystr set \<times> AgentTask list" where
  "visit tasks 0 tid st = Inl RecursionError"
| "visit tasks (Suc frames) tid (visited, res) =
     (if tid \<in> visited then Inr (visited, res)
      else (case task_dict tasks tid of
              None \<Rightarrow> Inr (insert tid visited, res)
            | Some task \<Rightarrow>
                (case visit_deps tasks frames (dependencies task) (insert tid visited, res) of
                   Inl e \<Rightarrow> Inl e
                 | Inr (visited', res') \<Rightarrow> Inr (visited', res' @ [task]))))"
| "visit_deps tasks frames [] st = Inr st"
| "visit_deps tasks frames (dep_id # deps) st =
     (case visit tasks frames dep_id st of
        Inl e \<Rightarrow> Inl e
      | Inr st' \<Rightarrow> visit_deps tasks frames deps st')"

fun visit_tasks ::
  "AgentTask list \<Rightarrow> nat \<Rightarrow> AgentTask list \<Rightarrow> pystr set \<times> AgentTask list
   \<Rightarrow> error + pystr set \<times> AgentTask list" where
  "visit_tasks tasks frames [] st = Inr st"
| "visit_tasks tasks frames (task # rest) st =
     (case visit tasks frames (task_id task) st of
        Inl e \<Rightarrow> Inl e
      | Inr st' \<Rightarrow> visit_tasks tasks frames rest st')"

definition sort_tasks_by_dependencies :: "nat \<Rightarrow> AgentTask list \<Rightarrow> error + AgentTask list" where
  "sort_tasks_by_dependencies frames tasks =
     (case visit_tasks tasks frames tasks ({}, []) of
        Inl e \<Rightarrow> Inl e
      | Inr (visited, res) \<Rightarrow> Inr res)"

definition execute_pipeline ::
  "nat \<Rightarrow> 'w CollaborativeAgent \<Rightarrow> AgentTask list \<Rightarrow> 'w state
   \<Rightarrow> error + TaskResult list \<times> 'w state" where
  "execute_pipeline frames self tasks st =
     (case sort_tasks_by_dependencies frames tasks of
        Inl e \<Rightarrow> Inl e
      | Inr sorted_tasks \<Rightarrow> Inr (execute_sequential self sorted_tasks st))"

text \<open>
  \<open>min(xs, key=f)\<close>: the first item of least key; on an empty list it raises, which is
  \<open>None\<close> here.
\<close>

fun min_key :: "('a \<Rightarrow> real) \<Rightarrow> 'a list \<Rightarrow> 'a option" where
  "min_key key [] = None"
| "min_key key (x # xs) = Some (fold (\<lambda>y best. if key y < key best then y else best) xs x)"

definition competitive_tasks :: "pystr \<Rightarrow> pystr list \<Rightarrow> AgentTask list" where
  "competitive_tasks task_description agent_types =
     map (\<lambda>(i, atype). new_task (cps ''competitive_'' @ str_of_nat i) atype task_description [])
       (enumerate 0 agent_types)"

definition execute_competitive ::
  "'w CollaborativeAgent \<Rightarrow> pystr \<Rightarrow> pystr list \<Rightarrow> 'w state \<Rightarrow> TaskResult option \<times> 'w state" where
  "execute_competitive self task_description agent_types st =
     (let tasks = competitive_tasks task_description agent_types in
      case execute_parallel self tasks st of (results, st') \<Rightarrow>
        (let successful_results = filter success results in
         if successful_results \<noteq> [] then (min_key execution_time successful_results, st')
         else ((case results of [] \<Rightarrow> None | r # rs \<Rightarrow> Some r), st')))"

section \<open>Running a collaborative request (\<open>sources/router.py\<close>)\<close>

datatype CollaborationMode = SEQUENTIAL | PARALLEL | PIPELINE | COMPETITIVE

text \<open>
  \<open>execute_collaborative_task\<close>. It returns \<open>None\<close> or a list whose items are
  \<open>TaskResult\<close>s, or in competitive mode the one value that \<open>execute_competitive\<close>
  returned; in pipeline mode the error of the sort goes on to the caller.
  \<open>list(set(...))\<close> yields the distinct capability tags in an order that depends
  on the hashing of the interpreter; it is the parameter \<open>list_set\<close>.
\<close>

definition execute_collaborative_task ::
  "casetab \<Rightarrow> (pystr list \<Rightarrow> pystr list) \<Rightarrow> nat \<Rightarrow> 'w CollaborativeAgent \<Rightarrow> pystr
   \<Rightarrow> CollaborationMode \<Rightarrow> 'w state \<Rightarrow> error + TaskResult option list option \<times> 'w state" where
  "execute_collaborative_task tbl list_set frames collaborative_agent text mode st =
     (let tasks = decompose_collaborative_task tbl text in
      if tasks = [] then Inr (None, st)
      else
        (case mode of
           PARALLEL \<Rightarrow>
             (case execute_parallel collaborative_agent tasks st of
                (results, st') \<Rightarrow> Inr (Some (map Some results), st'))
         | PIPELINE \<Rightarrow>
             (case execute_pipeline frames collaborative_agent tasks st of
                Inl e \<Rightarrow> Inl e
              | Inr (results, st') \<Rightarrow> Inr (Some (map Some results), st'))
         | COMPETITIVE \<Rightarrow>
             (let agent_types = list_set (map agent_type tasks) in
              if 1 < length agent_types then
                (case execute_competitive collaborative_agent text agent_types st of
                   (r, st') \<Rightarrow> Inr (Some [r], st'))
              else
                (case execute_sequential collaborative_agent tasks st of
                   (results, st') \<Rightarrow> Inr (Some (map Some results), st')))
         | SEQUENTIAL \<Rightarrow>
             (case execute_sequential collaborative_agent tasks st of
                (results, st') \<Rightarrow> Inr (Some (map Some results), st'))))"

section \<open>Example classifiers\<close>

text \<open>A classifier that returns the same predictions for every text, and one that raises.\<close>

definition predicting :: "(pystr \<times> real) list \<Rightarrow> pystr \<Rightarrow> pystr + (pystr \<times> real) list" where
  "predicting predictions text = Inr predictions"

definition failing :: "pystr \<Rightarrow> pystr \<Rightarrow> pystr + (pystr \<times> real) list" where
  "failing message text = Inl message"

section \<open>Example workers\<close>

text \<open>
  For the examples the world is a clock, a real number of seconds. \<open>worker d out\<close> takes
  \<open>d\<close> seconds and ends as \<open>out\<close> says; \<open>echo_worker\<close> answers with the prompt it
  was given, after one second.
\<close>

definition clock :: "real \<Rightarrow> real \<times> real" where
  "clock w = (w, w)"

definition worker :: "real \<Rightarrow> outcome \<Rightarrow> real agent" where
  "worker d out w prompt = (out, w + d)"

definition echo_worker :: "real agent" where
  "echo_worker w prompt = (Returns prompt (cps ''echo'') True, w + 1)"

definition scheduler_of :: "(pystr \<times> real agent) list \<Rightarrow> real CollaborativeAgent" where
  "scheduler_of workers = \<lparr>agents = map_of workers, max_parallel_tasks = 3, time_time = clock\<rparr>"

definition start :: "real state" where
  "start = \<lparr>world = 0, shared_context = []\<rparr>"

definition code_task :: AgentTask where
  "code_task = new_task (cps ''a'') (cps ''code'') (cps ''Write a script'') []"

definition web_task :: AgentTask where
  "web_task = new_task (cps ''b'') (cps ''web'') (cps ''Search the web'') []"

definition files_task :: AgentTask where
  "files_task = new_task (cps ''c'') (cps ''files'') (cps ''Save the file'') []"



text \<open>The definitions that an example unfolds.\<close>

lemmas demo_defs = scheduler_of_def worker_def echo_worker_def clock_def start_def
  code_task_def web_task_def files_task_def new_task_def
  execute_parallel_def execute_task_def get_all_def shared_context_set_def shared_context_get_def
  failed_result_def prepare_task_prompt_def format_value_def cps_def Let_def

definition slow_scheduler :: "real CollaborativeAgent" where
  "slow_scheduler = scheduler_of
     [(cps ''code'', worker 1000 (Returns (cps ''done'') (cps ''took a while'') True))]"

definition hello_task :: AgentTask where
  "hello_task = new_task (cps ''h'') (cps ''talk'') (cps ''Say hello'') []"

definition echo_scheduler :: "real CollaborativeAgent" where
  "echo_scheduler = scheduler_of
     [(cps ''code'', worker 1 (Returns (cps ''print(1)'') (cps ''wrote it'') True)),
      (cps ''talk'', echo_worker)]"

definition raising_scheduler :: "real CollaborativeAgent" where
  "raising_scheduler = scheduler_of
     [(cps ''code'', worker 1 (Raises (cps ''boom''))), (cps ''talk'', echo_worker)]"

lemmas example_defs = demo_defs hello_task_def echo_scheduler_def raising_scheduler_def

text \<open>
  A worker whose first call returns without success and whose later calls raise (the world
  of the examples is the time, and every call takes one second).
\<close>

definition flaky_worker :: "real agent" where
  "flaky_worker w prompt =
     (if w < 1 then Returns (cps ''partial'') (cps ''gave up'') False else Raises (cps ''boom''),
      w + 1)"

definition flaky_scheduler :: "real CollaborativeAgent" where
  "flaky_scheduler = scheduler_of [(cps ''code'', flaky_worker), (cps ''talk'', echo_worker)]"

definition rival_scheduler :: "real CollaborativeAgent" where
  "rival_scheduler = scheduler_of
     [(cps ''code'', worker 1 (Returns (cps ''print(1)'') (cps ''wrote it'') True)),
      (cps ''web'', worker 2 (Raises (cps ''no network'')))]"

text \<open>Three tasks with a cycle, a dependency on itself and an unknown dependency.\<close>

definition cyclic_tasks :: "AgentTask list" where
  "cyclic_tasks =
     [new_task (cps ''a'') (cps ''code'') (cps ''Write'') [cps ''b'', cps ''x''],
      new_task (cps ''b'') (cps ''web'') (cps ''Search'') [cps ''a''],
      new_task (cps ''c'') (cps ''talk'') (cps ''Tell'') [cps ''c'']]"

text \<open>
  A chain of \<open>n\<close> tasks: the identifiers are \<open>a\<close>, \<open>aa\<close>, \<open>aaa\<close>, ..., and every task
  depends on the next one.
\<close>

definition chain_id :: "nat \<Rightarrow> pystr" where
  "chain_id i = replicate (Suc i) 97"

definition chain_task :: "nat \<Rightarrow> AgentTask" where
  "chain_task i = new_task (chain_id i) (cps ''talk'') (cps ''Say hello'') [chain_id (Suc i)]"

definition chain :: "nat \<Rightarrow> AgentTask list" where
  "chain n = map chain_task [0..<n]"

section \<open>Auxiliary notions for the proofs\<close>

text \<open>The tasks of a list whose identifier lies in a given set, as a multiset.\<close>

definition emitted :: "AgentTask list \<Rightarrow> pystr set \<Rightarrow> AgentTask multiset" where
  "emitted tasks S = filter_mset (\<lambda>t. task_id t \<in> S) (mset tasks)"

section \<open>Facts about strings\<close>

lemma startswith_iff: "startswith s w \<longleftrightarrow> (\<exists>b. s = w @ b)"
  by (induction s w rule: startswith.induct) auto

lemma py_in_iff: "py_in w s \<longleftrightarrow> (\<exists>a b. s = a @ w @ b)"
proof (induction s)
  case Nil
  then show ?case by auto
next
  case (Cons c s)
  show ?case
  proof
    assume "py_in w (c # s)"
    then consider "startswith (c # s) w" | "py_in w s" by auto
    then show "\<exists>a b. c # s = a @ w @ b"
    proof cases
      case 1
      then obtain b where "c # s = w @ b" by (auto simp: startswith_iff)
      then have "c # s = [] @ w @ b" by simp
      then show ?thesis by blast
    next
      case 2
      then obtain a b where "s = a @ w @ b" using Cons.IH by blast
      then have "c # s = (c # a) @ w @ b" by simp
      then show ?thesis by blast
    qed
  next
    assume "\<exists>a b. c # s = a @ w @ b"
    then obtain a b where ab: "c # s = a @ w @ b" by blast
    show "py_in w (c # s)"
    proof (cases a)
      case Nil
      with ab have "startswith (c # s) w" by (auto simp: startswith_iff)
      then show ?thesis by simp
    next
      case (Cons d a')
      with ab have "s = a' @ w @ b" by simp
      then have "py_in w s" using Cons.IH by blast
      then show ?thesis by simp
    qed
  qed
qed

lemma lower_from_append:
  "lower_from tbl pre (a @ b) post =
     lower_from tbl pre a (b @ post) @ lower_from tbl (pre @ a) b post"
  by (induction a arbitrary: pre) auto

lemma lower_from_fixed:
  "(\<And>c p q. c \<in> set w \<Longrightarrow> lower_cp tbl p c q = [c]) \<Longrightarrow>
   lower_from tbl pre w post = w"
  by (induction w arbitrary: pre) auto

lemma py_in_str_lower:
  assumes "py_in w s" and "\<And>c p q. c \<in> set w \<Longrightarrow> lower_cp tbl p c q = [c]"
  shows "py_in w (str_lower tbl s)"
proof -
  from assms(1) obtain a b where s: "s = a @ w @ b" by (auto simp: py_in_iff)
  have "str_lower tbl s = lower_from tbl [] a (w @ b) @ w @ lower_from tbl (a @ w) b []"
    unfolding str_lower_def s by (simp add: lower_from_append lower_from_fixed [OF assms(2)])
  then show ?thesis unfolding py_in_iff by blast
qed

lemma py_in_exclusion_words:
  "w \<in> set exclusion_words \<Longrightarrow> py_in w text_lower \<Longrightarrow>
   list_ex (\<lambda>word. py_in word text_lower) exclusion_words"
  by (auto simp: list_ex_iff)

section \<open>Exclusion precedence\<close>

text \<open>
  Claim C6. A text that contains one of the exclusion terms of the detector (\<open>only\<close>,
  \<open>just\<close>, \<open>simply\<close>, \<open>single\<close>, \<open>alone\<close> or one of the five Chinese terms) is never
  detected as collaborative, whatever else it contains. The Chinese terms have no case:
  the case table of the interpreter leaves their code points as they are, which is the
  hypothesis on \<open>tbl\<close>.
\<close>

theorem exclusion_precedence:
  assumes "w \<in> set exclusion_words"
    and "py_in w text"
    and "\<And>c p q. c \<in> set (concat exclusion_words) \<Longrightarrow> 128 \<le> c \<Longrightarrow> tbl p c q = [c]"
  shows "detect_collaborative_task tbl text = False"
proof -
  have fixed: "lower_cp tbl p c q = [c]" if "c \<in> set w" for c p q
  proof (cases "128 \<le> c")
    case True
    from that assms(1) have "c \<in> set (concat exclusion_words)" by auto
    with True show ?thesis by (simp add: lower_cp_def assms(3))
  next
    case False
    from that assms(1) have "c \<in> set (concat exclusion_words)" by auto
    then have "\<not> (65 \<le> c \<and> c \<le> 90)"
      using False by (auto simp: exclusion_words_def cps_def)
    with False show ?thesis by (simp add: lower_cp_def)
  qed
  have "py_in w (str_lower tbl text)"
    using assms(2) fixed by (rule py_in_str_lower)
  then have "list_ex (\<lambda>word. py_in word (str_lower tbl text)) exclusion_words"
    using assms(1) by (rule py_in_exclusion_words [rotated])
  then show ?thesis by (simp add: detect_collaborative_task_def Let_def)
qed

theorem exclusion_precedence_witness:
  "cps ''just'' \<in> set exclusion_words
   \<and> py_in (cps ''just'') (cps ''Search the web and then write code, just once'')
   \<and> detect_collaborative_task caseless
         (cps ''Search the web and then write code, just once'') = False"
proof -
  have a: "cps ''just'' \<in> set exclusion_words"
    by (simp add: exclusion_words_def)
  have b: "py_in (cps ''just'') (cps ''Search the web and then write code, just once'')"
    by (simp add: cps_def)
  have c: "\<And>c p q. c \<in> set (concat exclusion_words) \<Longrightarrow> 128 \<le> c \<Longrightarrow> caseless p c q = [c]"
    by (simp add: caseless_def)
  show ?thesis using a b exclusion_precedence [OF a b c] by simp
qed

text \<open>Without the exclusion term the same request is detected as collaborative.\<close>

lemma detect_without_exclusion_term:
  "detect_collaborative_task caseless (cps ''Search the web and then write code'') = True"
  by (simp add: detect_collaborative_task_def str_lower_def lower_cp_def cps_def
      exclusion_words_def collaboration_keywords_def action_words_def strong_keywords_def
      caseless_def)

section \<open>The complexity estimate\<close>

lemma last_insort_key:
  "sorted (map f ys) \<Longrightarrow>
   last (insort_key f x ys) = (if ys = [] then x else if f x \<le> f (last ys) then last ys else x)"
proof (induction ys)
  case Nil
  then show ?case by simp
next
  case (Cons y ys)
  show ?case
  proof (cases "ys = []")
    case True
    then show ?thesis by auto
  next
    case False
    then have "last ys \<in> set ys" by simp
    with Cons.prems have le: "f y \<le> f (last ys)" by auto
    from Cons have IH: "last (insort_key f x ys) = (if f x \<le> f (last ys) then last ys else x)"
      using False by simp
    show ?thesis
    proof (cases "f x \<le> f y")
      case True
      then have "f x \<le> f (last ys)" using le by (rule order_trans)
      with True False show ?thesis by simp
    next
      case nle: False
      have "insort_key f x ys \<noteq> []" by (cases ys) auto
      with nle False IH show ?thesis by simp
    qed
  qed
qed

lemma sort_key_eq_Nil [simp]: "sort_key f xs = [] \<longleftrightarrow> xs = []"
  using length_sort [of f xs] by (metis length_0_conv)

lemma sorted_reverse_Nil [simp]: "sorted_reverse f [] = []"
  by (simp add: sorted_reverse_def)

lemma sorted_reverse_eq_Nil [simp]: "sorted_reverse f ps = [] \<longleftrightarrow> ps = []"
  by (simp add: sorted_reverse_def)

lemma set_sorted_reverse [simp]: "set (sorted_reverse f ps) = set ps"
  by (simp add: sorted_reverse_def)

lemma hd_sorted_reverse_snoc:
  "hd (sorted_reverse f (ps @ [x])) =
     (if ps = [] then x
      else if f x \<le> f (hd (sorted_reverse f ps)) then hd (sorted_reverse f ps) else x)"
proof -
  have "hd (sorted_reverse f (ps @ [x])) = last (insort_key f x (sort_key f (rev ps)))"
    by (simp add: sorted_reverse_def hd_rev)
  also have "\<dots> = (if sort_key f (rev ps) = [] then x
      else if f x \<le> f (last (sort_key f (rev ps))) then last (sort_key f (rev ps)) else x)"
    by (rule last_insort_key) simp
  finally show ?thesis by (simp add: sorted_reverse_def hd_rev)
qed

lemma hd_sorted_reverse_mem: "ps \<noteq> [] \<Longrightarrow> hd (sorted_reverse f ps) \<in> set ps"
  using hd_in_set [of "sorted_reverse f ps"] by simp

lemma hd_sorted_reverse_first_max:
  assumes "\<forall>p \<in> set a. f p < f m" and "\<forall>p \<in> set b. f p \<le> f m"
  shows "hd (sorted_reverse f (a @ m # b)) = m"
  using assms(2)
proof (induction b rule: rev_induct)
  case Nil
  show ?case
  proof (cases "a = []")
    case True
    then show ?thesis by (simp add: sorted_reverse_def)
  next
    case False
    then have "f (hd (sorted_reverse f a)) < f m"
      using assms(1) hd_sorted_reverse_mem by blast
    with False show ?thesis by (simp add: hd_sorted_reverse_snoc)
  qed
next
  case (snoc x b)
  then have IH: "hd (sorted_reverse f (a @ m # b)) = m" and x: "f x \<le> f m" by auto
  have "hd (sorted_reverse f ((a @ m # b) @ [x])) = m"
    unfolding hd_sorted_reverse_snoc using IH x by simp
  then show ?case by simp
qed

lemma first_max_exists:
  "ps \<noteq> [] \<Longrightarrow> \<exists>a m b. ps = a @ m # b \<and> (\<forall>p \<in> set a. f p < f m) \<and> (\<forall>p \<in> set b. f p \<le> (f m :: real))"
proof (induction ps rule: rev_induct)
  case Nil
  then show ?case by simp
next
  case (snoc x ps)
  show ?case
  proof (cases "ps = []")
    case True
    then have "ps @ [x] = [] @ x # []" by simp
    then show ?thesis by (metis empty_iff list.set(1))
  next
    case False
    then obtain a m b where ps: "ps = a @ m # b" and a: "\<forall>p \<in> set a. f p < f m"
      and b: "\<forall>p \<in> set b. f p \<le> f m" using snoc.IH by blast
    show ?thesis
    proof (cases "f x \<le> f m")
      case True
      have "ps @ [x] = a @ m # (b @ [x])" by (simp add: ps)
      moreover have "\<forall>p \<in> set (b @ [x]). f p \<le> f m" using b True by auto
      ultimately show ?thesis using a by blast
    next
      case False
      have "ps @ [x] = ps @ x # []" by simp
      moreover have "\<forall>p \<in> set ps. f p < f x" using a b False by (auto simp: ps) 
      ultimately show ?thesis by (metis empty_iff list.set(1))
    qed
  qed
qed

text \<open>
  Claim C7, as the code has it. \<open>estimate_complexity\<close> answers \<open>LOW\<close> when the
  classifier raises and when it returns no prediction. Otherwise let \<open>(label, confidence)\<close>
  be the first prediction of highest confidence (every prediction before it has a smaller
  confidence, none after it a greater one): the answer is \<open>HIGH\<close> when the confidence
  is below 0.5, else the label when the label is \<open>HIGH\<close> or \<open>LOW\<close>, and \<open>LOW\<close> for
  any other label.
\<close>

theorem estimate_complexity_rule:
  "(predict text = Inl e \<longrightarrow> estimate_complexity predict text = cps ''LOW'')
   \<and> (predict text = Inr [] \<longrightarrow> estimate_complexity predict text = cps ''LOW'')
   \<and> (predict text = Inr (a @ (label, confidence) # b)
        \<and> (\<forall>p \<in> set a. snd p < confidence) \<and> (\<forall>p \<in> set b. snd p \<le> confidence)
      \<longrightarrow> estimate_complexity predict text =
            (if confidence < 0.5 then cps ''HIGH''
             else if label = cps ''HIGH'' \<or> label = cps ''LOW'' then label
             else cps ''LOW''))"
proof (intro conjI impI)
  assume "predict text = Inl e"
  then show "estimate_complexity predict text = cps ''LOW''"
    by (simp add: estimate_complexity_def)
next
  assume "predict text = Inr []"
  then show "estimate_complexity predict text = cps ''LOW''"
    by (simp add: estimate_complexity_def)
next
  assume h: "predict text = Inr (a @ (label, confidence) # b)
        \<and> (\<forall>p \<in> set a. snd p < confidence) \<and> (\<forall>p \<in> set b. snd p \<le> confidence)"
  let ?ps = "a @ (label, confidence) # b"
  have hd: "hd (sorted_reverse snd ?ps) = (label, confidence)"
    using h by (intro hd_sorted_reverse_first_max) auto
  have "sorted_reverse snd ?ps \<noteq> []" by simp
  then obtain rest where "sorted_reverse snd ?ps = (label, confidence) # rest"
    using hd by (cases "sorted_reverse snd ?ps") auto
  then show "estimate_complexity predict text =
            (if confidence < 0.5 then cps ''HIGH''
             else if label = cps ''HIGH'' \<or> label = cps ''LOW'' then label
             else cps ''LOW'')"
    using h by (simp add: estimate_complexity_def)
qed

theorem estimate_complexity_rule_witness:
  "estimate_complexity (failing (cps ''model not loaded'')) (cps ''hi'') = cps ''LOW''
   \<and> estimate_complexity (predicting []) (cps ''hi'') = cps ''LOW''
   \<and> estimate_complexity (predicting [(cps ''LOW'', 0.3), (cps ''HIGH'', 0.4), (cps ''talk'', 0.4)])
         (cps ''hi'') = cps ''HIGH''
   \<and> estimate_complexity (predicting [(cps ''HIGH'', 0.2), (cps ''LOW'', 0.8)]) (cps ''hi'')
       = cps ''LOW''"
proof -
  have 1: "estimate_complexity (failing (cps ''model not loaded'')) (cps ''hi'') = cps ''LOW''"
    using estimate_complexity_rule
      [of "failing (cps ''model not loaded'')" "cps ''hi''" "cps ''model not loaded''"]
    by (simp add: predicting_def failing_def)
  have 2: "estimate_complexity (predicting []) (cps ''hi'') = cps ''LOW''"
    using estimate_complexity_rule [of "predicting []" "cps ''hi''"] by (simp add: predicting_def)
  have 3: "estimate_complexity
      (predicting [(cps ''LOW'', 0.3), (cps ''HIGH'', 0.4), (cps ''talk'', 0.4)]) (cps ''hi'')
      = cps ''HIGH''"
    using estimate_complexity_rule
      [of "predicting [(cps ''LOW'', 0.3), (cps ''HIGH'', 0.4), (cps ''talk'', 0.4)]" "cps ''hi''"
          _ "[(cps ''LOW'', 0.3)]" "cps ''HIGH''" "0.4" "[(cps ''talk'', 0.4)]"]
    by (simp add: predicting_def failing_def)
  have 4: "estimate_complexity (predicting [(cps ''HIGH'', 0.2), (cps ''LOW'', 0.8)]) (cps ''hi'')
      = cps ''LOW''"
    using estimate_complexity_rule
      [of "predicting [(cps ''HIGH'', 0.2), (cps ''LOW'', 0.8)]" "cps ''hi''"
          _ "[(cps ''HIGH'', 0.2)]" "cps ''LOW''" "0.8" "[]"]
    by (simp add: predicting_def failing_def)
  from 1 2 3 4 show ?thesis by simp
qed

text \<open>
  The claim as it is written says that the predicted label is returned whenever the
  confidence is at least 0.5. The classifier is the same pretrained model as the one that
  routes requests, so its best label need not be a complexity tier; for the label
  \<open>talk\<close> the answer is \<open>LOW\<close>, not the label.
\<close>

theorem estimate_complexity_other_label:
  "estimate_complexity (predicting [(cps ''talk'', 0.9)]) (cps ''hello there'') = cps ''LOW''
   \<and> estimate_complexity (predicting [(cps ''talk'', 0.9)]) (cps ''hello there'') \<noteq> cps ''talk''"
  by (simp add: estimate_complexity_def sorted_reverse_def predicting_def cps_def)

section \<open>Task decomposition\<close>

lemma detect_task_type_nonempty: "detect_task_type tbl s \<noteq> []"
  by (simp add: detect_task_type_def Let_def cps_def)

lemma decompose_loop_eq:
  "decompose_loop tbl ss n tasks =
     tasks @ map (\<lambda>(i, c). new_task (cps ''task_'' @ str_of_nat i) (detect_task_type tbl c) c [])
               (enumerate n (filter (\<lambda>c. c \<noteq> []) (map strip ss)))"
proof (induction ss arbitrary: n tasks)
  case Nil
  then show ?case by simp
next
  case (Cons s ss)
  show ?case
  proof (cases "strip s = []")
    case True
    then show ?thesis using Cons.IH by simp
  next
    case False
    then show ?thesis using Cons.IH [of "Suc n"]
      by (simp add: Let_def detect_task_type_nonempty new_task_def)
  qed
qed

text \<open>
  Claim C8, as the code has it. The text is split at the full stop \<open>.\<close> (code point 46)
  and at no other punctuation; every piece that is not empty once stripped gives one
  task, in order, with the identifiers \<open>task_0\<close>, \<open>task_1\<close>, ..., the capability tag
  that \<open>detect_task_type\<close> finds for the piece, the stripped piece as description and no
  dependency.
\<close>

theorem decompose_collaborative_task_clauses:
  "decompose_collaborative_task tbl text =
     map (\<lambda>(i, clause).
            new_task (cps ''task_'' @ str_of_nat i) (detect_task_type tbl clause) clause [])
       (enumerate 0 (filter (\<lambda>c. c \<noteq> []) (map strip (str_split 46 text))))"
  by (simp add: decompose_collaborative_task_def decompose_loop_eq)

text \<open>The tag is one of the four capability tags, by the keyword sets in their order.\<close>

lemma detect_task_type_cases:
  "detect_task_type tbl s \<in> {cps ''code'', cps ''web'', cps ''files'', cps ''talk''}"
  by (simp add: detect_task_type_def Let_def)

text \<open>
  An exclamation mark and a question mark end sentences too, but the text is not split at
  them: the two sentences below are one task.
\<close>

theorem decompose_other_punctuation:
  "decompose_collaborative_task caseless (cps ''Write code! Search the web?'') =
     [new_task (cps ''task_0'') (cps ''code'') (cps ''Write code! Search the web?'') []]"
  by (simp add: decompose_collaborative_task_def new_task_def detect_task_type_def
      str_lower_def lower_cp_def strip_def isspace_def cps_def str_of_nat.simps)

text \<open>The request of the repository's own test gives four tasks: \<open>weather.py\<close> is split too.\<close>

lemma decompose_example:
  "map (\<lambda>t. (task_id t, agent_type t, description t, dependencies t))
     (decompose_collaborative_task caseless
        (cps ''Search for weather API. Write a script. Save it to weather.py'')) =
   [(cps ''task_0'', cps ''web'', cps ''Search for weather API'', []),
    (cps ''task_1'', cps ''code'', cps ''Write a script'', []),
    (cps ''task_2'', cps ''files'', cps ''Save it to weather'', []),
    (cps ''task_3'', cps ''talk'', cps ''py'', [])]"
  by (simp add: decompose_collaborative_task_def new_task_def detect_task_type_def
      str_lower_def lower_cp_def strip_def isspace_def cps_def str_of_nat.simps)

section \<open>Running one task\<close>


lemma execute_task_raises:
  assumes "agents self (agent_type task) = Some agent"
    and "time_time self (world st) = (t0, w1)"
    and "agent w1 (prepare_task_prompt task ctx) = (Raises msg, w2)"
    and "time_time self w2 = (t1, w3)"
  shows "execute_task self task ctx st = (failed_result task (t1 - t0) msg, st\<lparr>world := w3\<rparr>)"
  using assms by (simp add: execute_task_def)

lemma execute_task_returns:
  assumes "agents self (agent_type task) = Some agent"
    and "time_time self (world st) = (t0, w1)"
    and "agent w1 (prepare_task_prompt task ctx) = (Returns res reas ok, w2)"
    and "time_time self w2 = (t1, w3)"
  shows "execute_task self task ctx st =
     (\<lparr>result_task_id = task_id task, result_agent_type = agent_type task, success = ok,
       result = res, reasoning = reas, execution_time = t1 - t0, error_message = None\<rparr>,
      shared_context_set (cps ''task_'' @ task_id task @ cps ''_success'') (Bool ok)
        (shared_context_set (cps ''task_'' @ task_id task @ cps ''_result'') (Str res)
           (st\<lparr>world := w3\<rparr>)))"
  using assms by (simp add: execute_task_def)

lemma execute_task_task_id [simp]:
  "result_task_id (fst (execute_task self task ctx st)) = task_id task"
  by (simp add: execute_task_def failed_result_def Let_def split: prod.splits option.splits outcome.splits)

lemma execute_task_agent_type [simp]:
  "result_agent_type (fst (execute_task self task ctx st)) = agent_type task"
  by (simp add: execute_task_def failed_result_def Let_def split: prod.splits option.splits outcome.splits)

lemma prepare_task_prompt_timeout [simp]:
  "prepare_task_prompt (task\<lparr>timeout := n\<rparr>) ctx = prepare_task_prompt task ctx"
  by (simp add: prepare_task_prompt_def)

lemma failed_result_timeout [simp]:
  "failed_result (task\<lparr>timeout := n\<rparr>) t msg = failed_result task t msg"
  by (simp add: failed_result_def)

lemma execute_task_timeout:
  "execute_task self (task\<lparr>timeout := n\<rparr>) ctx st = execute_task self task ctx st"
  by (simp add: execute_task_def Let_def split: prod.splits option.splits outcome.splits)

lemma gather_nth:
  "gather self ctx tasks st = (rs, st') \<Longrightarrow>
   length rs = length tasks \<and>
   (\<forall>i<length tasks. rs ! i =
      Inr (fst (execute_task self (tasks ! i) ctx (snd (gather self ctx (take i tasks) st)))))"
proof (induction tasks arbitrary: st rs st')
  case Nil
  then show ?case by simp
next
  case (Cons t ts)
  obtain r st1 where e: "execute_task self t ctx st = (r, st1)" by (cases "execute_task self t ctx st")
  obtain rs1 st2 where g: "gather self ctx ts st1 = (rs1, st2)" by (cases "gather self ctx ts st1")
  from Cons.prems e g have rs: "rs = Inr r # rs1" by simp
  from Cons.IH [OF g] have len: "length rs1 = length ts"
    and nth: "\<And>i. i < length ts \<Longrightarrow> rs1 ! i =
      Inr (fst (execute_task self (ts ! i) ctx (snd (gather self ctx (take i ts) st1))))" by auto
  show ?case
  proof (intro conjI allI impI)
    show "length rs = length (t # ts)" using rs len by simp
  next
    fix i assume i: "i < length (t # ts)"
    show "rs ! i = Inr (fst (execute_task self ((t # ts) ! i) ctx (snd (gather self ctx (take i (t # ts)) st))))"
    proof (cases i)
      case 0
      then show ?thesis using rs e by simp
    next
      case (Suc j)
      then have "j < length ts" using i by simp
      from nth [OF this] show ?thesis using Suc rs e
        by (simp add: split: prod.splits)
    qed
  qed
qed

lemma execute_parallel_snd:
  "snd (execute_parallel self tasks st) = snd (gather self (get_all st) tasks st)"
  by (simp add: execute_parallel_def Let_def split: prod.splits)

lemma execute_parallel_nth:
  assumes "execute_parallel self tasks st = (results, st')"
  shows "length results = length tasks"
    and "i < length tasks \<Longrightarrow> results ! i =
      fst (execute_task self (tasks ! i) (get_all st) (snd (execute_parallel self (take i tasks) st)))"
proof -
  obtain rs where g: "gather self (get_all st) tasks st = (rs, st')"
    using assms by (auto simp: execute_parallel_def Let_def split: prod.splits)
  from gather_nth [OF g] have len: "length rs = length tasks"
    and nth: "\<And>i. i < length tasks \<Longrightarrow> rs ! i =
      Inr (fst (execute_task self (tasks ! i) (get_all st) (snd (gather self (get_all st) (take i tasks) st))))"
    by auto
  have res: "results = map (\<lambda>(task, r). case r of Inl e \<Rightarrow> failed_result task 0 e | Inr x \<Rightarrow> x) (zip tasks rs)"
    using assms g by (simp add: execute_parallel_def Let_def)
  show "length results = length tasks" using res len by simp
  show "results ! i = fst (execute_task self (tasks ! i) (get_all st) (snd (execute_parallel self (take i tasks) st)))"
    if "i < length tasks"
    using that res len nth [OF that] by (simp add: execute_parallel_snd)
qed


subsection \<open>The shared context\<close>

lemma shared_context_get_set:
  "shared_context_get k (shared_context_set k' v st) = (if k = k' then Some v else shared_context_get k st)"
  by (simp add: shared_context_get_def shared_context_set_def update_conv')

lemma shared_context_get_world [simp]:
  "shared_context_get k (st\<lparr>world := w\<rparr>) = shared_context_get k st"
  by (simp add: shared_context_get_def)

lemma result_key_neq_success_key:
  "cps ''task_'' @ tid @ cps ''_result'' \<noteq> cps ''task_'' @ tid @ cps ''_success''"
  by (simp add: cps_def)

lemma execute_task_keeps:
  "shared_context_get k st \<noteq> None \<Longrightarrow>
   shared_context_get k (snd (execute_task self task ctx st)) \<noteq> None"
  by (auto simp: execute_task_def Let_def shared_context_get_set
      split: prod.splits option.splits outcome.splits)

lemma execute_task_writes:
  "error_message (fst (execute_task self task ctx st)) = None \<Longrightarrow>
   shared_context_get (cps ''task_'' @ task_id task @ cps ''_result'')
     (snd (execute_task self task ctx st)) \<noteq> None
   \<and> shared_context_get (cps ''task_'' @ task_id task @ cps ''_success'')
     (snd (execute_task self task ctx st)) \<noteq> None"
  by (auto simp: execute_task_def Let_def shared_context_get_set failed_result_def
      split: prod.splits option.splits outcome.splits)

lemma execute_task_result_indep:
  "world st = world st2 \<Longrightarrow>
   fst (execute_task self task ctx st) = fst (execute_task self task ctx st2)"
  by (auto simp: execute_task_def Let_def split: prod.splits option.splits outcome.splits)

lemma gather_Cons_snd:
  "snd (gather self ctx (t # ts) st) = snd (gather self ctx ts (snd (execute_task self t ctx st)))"
  by (simp add: case_prod_beta)

lemma gather_keeps:
  "shared_context_get k st \<noteq> None \<Longrightarrow>
   shared_context_get k (snd (gather self ctx tasks st)) \<noteq> None"
proof (induction tasks arbitrary: st)
  case Nil
  then show ?case by simp
next
  case (Cons t ts)
  from execute_task_keeps [OF Cons.prems, of self t ctx]
  have "shared_context_get k (snd (gather self ctx ts (snd (execute_task self t ctx st)))) \<noteq> None"
    by (rule Cons.IH)
  then show ?case by (simp add: gather_Cons_snd del: gather.simps)
qed

lemma gather_append:
  "gather self ctx (xs @ ys) st =
     (case gather self ctx xs st of (r1, s1) \<Rightarrow>
      case gather self ctx ys s1 of (r2, s2) \<Rightarrow> (r1 @ r2, s2))"
  by (induction xs arbitrary: st) (simp_all add: case_prod_beta)

lemma gather_writes:
  assumes "j < length tasks"
    and "error_message (fst (execute_task self (tasks ! j) ctx (snd (gather self ctx (take j tasks) st)))) = None"
  shows "shared_context_get (cps ''task_'' @ task_id (tasks ! j) @ cps ''_result'')
           (snd (gather self ctx tasks st)) \<noteq> None"
proof -
  let ?k = "cps ''task_'' @ task_id (tasks ! j) @ cps ''_result''"
  let ?s = "snd (gather self ctx (take j tasks) st)"
  have split: "tasks = take j tasks @ tasks ! j # drop (Suc j) tasks"
    using assms(1) by (simp add: id_take_nth_drop)
  have "snd (gather self ctx tasks st) =
        snd (gather self ctx (drop (Suc j) tasks) (snd (execute_task self (tasks ! j) ctx ?s)))"
    by (subst split, subst gather_append) (simp add: case_prod_beta)
  moreover have "shared_context_get ?k (snd (execute_task self (tasks ! j) ctx ?s)) \<noteq> None"
    using execute_task_writes [OF assms(2)] by simp
  ultimately show ?thesis by (simp add: gather_keeps)
qed


section \<open>Isolation of failures in a parallel batch\<close>





section \<open>The timeout of a task\<close>

lemma gather_timeout:
  "gather self ctx (map (\<lambda>t. t\<lparr>timeout := f t\<rparr>) tasks) st = gather self ctx tasks st"
  by (induction tasks arbitrary: st) (simp_all add: execute_task_timeout)

lemma execute_parallel_timeout:
  "execute_parallel self (map (\<lambda>t. t\<lparr>timeout := f t\<rparr>) tasks) st = execute_parallel self tasks st"
proof -
  have "map (\<lambda>(task, r). case r of Inl e \<Rightarrow> failed_result task 0 e | Inr x \<Rightarrow> x)
          (zip (map (\<lambda>t. t\<lparr>timeout := f t\<rparr>) tasks) rs)
      = map (\<lambda>(task, r). case r of Inl e \<Rightarrow> failed_result task 0 e | Inr x \<Rightarrow> x) (zip tasks rs)" for rs
    by (induction tasks arbitrary: rs) (auto simp: zip_Cons1 split: list.splits sum.splits)
  then show ?thesis
    by (simp add: execute_parallel_def gather_timeout Let_def case_prod_beta)
qed

lemma execute_sequential_timeout:
  "execute_sequential self (map (\<lambda>t. t\<lparr>timeout := f t\<rparr>) tasks) st = execute_sequential self tasks st"
proof (induction tasks arbitrary: st)
  case Nil
  then show ?case by simp
next
  case (Cons t ts)
  have swap: "t\<lparr>timeout := f t, retry_count := retry_count t + 1\<rparr>
      = (t\<lparr>retry_count := retry_count t + 1\<rparr>)\<lparr>timeout := f t\<rparr>"
    by (cases t) simp
  have "execute_task self (t\<lparr>timeout := f t, retry_count := retry_count t + 1\<rparr>) ctx s
      = execute_task self (t\<lparr>retry_count := retry_count t + 1\<rparr>) ctx s" for ctx s
    unfolding swap by (rule execute_task_timeout)
  then show ?case using Cons.IH by (simp add: execute_task_timeout Let_def case_prod_beta)
qed

text \<open>
  Claim C4, as the code has it. A task carries a timeout, 300 seconds unless set, and the
  scheduler never reads it: the outcome of running a task, and of a parallel and of a
  sequential run, is the same for every value of the timeouts; a worker that returns, after
  however long, gives a result with its own answer and flag and the measured duration.
\<close>

theorem timeout_not_enforced:
  "execute_task self (task\<lparr>timeout := n\<rparr>) ctx st = execute_task self task ctx st
   \<and> execute_parallel self (map (\<lambda>t. t\<lparr>timeout := f t\<rparr>) tasks) st = execute_parallel self tasks st
   \<and> execute_sequential self (map (\<lambda>t. t\<lparr>timeout := f t\<rparr>) tasks) st
       = execute_sequential self tasks st
   \<and> (agents self (agent_type task) = Some agent
        \<and> time_time self (world st) = (started, wa)
        \<and> agent wa (prepare_task_prompt task ctx) = (Returns res reas ok, wb)
        \<and> time_time self wb = (ended, wc)
      \<longrightarrow> fst (execute_task self task ctx st) =
            \<lparr>result_task_id = task_id task, result_agent_type = agent_type task, success = ok,
             result = res, reasoning = reas, execution_time = ended - started,
             error_message = None\<rparr>)"
  by (simp add: execute_task_timeout execute_parallel_timeout execute_sequential_timeout)
     (simp add: execute_task_def)

theorem timeout_not_enforced_witness:
  "timeout code_task = 300
   \<and> fst (execute_task slow_scheduler code_task [] start) =
       \<lparr>result_task_id = cps ''a'', result_agent_type = cps ''code'', success = True,
        result = cps ''done'', reasoning = cps ''took a while'', execution_time = 1000,
        error_message = None\<rparr>"
proof -
  have h: "agents slow_scheduler (agent_type code_task)
        = Some (worker 1000 (Returns (cps ''done'') (cps ''took a while'') True))
      \<and> time_time slow_scheduler (world start) = (0, 0)
      \<and> worker 1000 (Returns (cps ''done'') (cps ''took a while'') True) 0
           (prepare_task_prompt code_task [])
         = (Returns (cps ''done'') (cps ''took a while'') True, 1000)
      \<and> time_time slow_scheduler 1000 = (1000, 1000)"
    by (simp add: slow_scheduler_def scheduler_of_def worker_def clock_def start_def
        code_task_def new_task_def cps_def)
  have "fst (execute_task slow_scheduler code_task [] start) =
       \<lparr>result_task_id = task_id code_task, result_agent_type = agent_type code_task,
        success = True, result = cps ''done'', reasoning = cps ''took a while'',
        execution_time = 1000 - 0, error_message = None\<rparr>"
    using h timeout_not_enforced
      [where self = slow_scheduler and task = code_task and ctx = "[]" and st = start
         and agent = "worker 1000 (Returns (cps ''done'') (cps ''took a while'') True)"
         and started = 0 and wa = 0 and res = "cps ''done''" and reas = "cps ''took a while''"
         and ok = True and wb = 1000 and ended = 1000 and wc = 1000]
    by blast
  then show ?thesis by (simp add: code_task_def new_task_def)
qed

text \<open>
  The claim as it is written says that a task running longer than its timeout becomes a
  failed result with a message about the timeout. A worker that needs 1000 seconds for a
  task with a timeout of 300 seconds gives a successful result without error message.
\<close>

theorem timeout_exceeded_succeeds:
  "timeout code_task = 300
   \<and> execution_time (fst (execute_task slow_scheduler code_task [] start)) = 1000
   \<and> success (fst (execute_task slow_scheduler code_task [] start))
   \<and> error_message (fst (execute_task slow_scheduler code_task [] start)) = None"
  by (simp add: slow_scheduler_def demo_defs)

section \<open>The snapshot of a parallel batch\<close>

text \<open>
  Claim C3. In a parallel batch every task is run on the context read once at the start of
  the batch, \<open>get_all st\<close>: the entry at position \<open>i\<close> is what the task yields from that
  context even if the shared context held nothing but what it held before the batch. Yet
  by the time the task runs, every sibling before it that returned has written its result
  into the shared context: the sibling's result is there and is not read.
\<close>

theorem parallel_snapshot:
  assumes "execute_parallel self tasks st = (results, st')" and "i < length tasks"
  shows "results ! i =
           fst (execute_task self (tasks ! i) (get_all st)
                  ((snd (execute_parallel self (take i tasks) st))\<lparr>shared_context := shared_context st\<rparr>))
     \<and> (\<forall>j<i. error_message (results ! j) = None \<longrightarrow>
           shared_context_get (cps ''task_'' @ task_id (tasks ! j) @ cps ''_result'')
             (snd (execute_parallel self (take i tasks) st)) \<noteq> None)"
proof (intro conjI allI impI)
  let ?before = "snd (execute_parallel self (take i tasks) st)"
  have "results ! i = fst (execute_task self (tasks ! i) (get_all st) ?before)"
    using assms by (rule execute_parallel_nth(2))
  also have "\<dots> = fst (execute_task self (tasks ! i) (get_all st)
                        (?before\<lparr>shared_context := shared_context st\<rparr>))"
    by (rule execute_task_result_indep) simp
  finally show "results ! i = fst (execute_task self (tasks ! i) (get_all st)
                        (?before\<lparr>shared_context := shared_context st\<rparr>))" .
next
  fix j assume j: "j < i" and ok: "error_message (results ! j) = None"
  let ?ctx = "get_all st"
  have jl: "j < length tasks" using j assms(2) by simp
  have rj: "results ! j = fst (execute_task self (tasks ! j) ?ctx (snd (execute_parallel self (take j tasks) st)))"
    using assms(1) jl by (rule execute_parallel_nth(2))
  have "j < length (take i tasks)" using j assms(2) by simp
  moreover have "error_message (fst (execute_task self (take i tasks ! j) ?ctx
        (snd (gather self ?ctx (take j (take i tasks)) st)))) = None"
    using ok rj j by (simp add: execute_parallel_snd min_def)
  ultimately have "shared_context_get (cps ''task_'' @ task_id (take i tasks ! j) @ cps ''_result'')
           (snd (gather self ?ctx (take i tasks) st)) \<noteq> None"
    by (rule gather_writes)
  then show "shared_context_get (cps ''task_'' @ task_id (tasks ! j) @ cps ''_result'')
             (snd (execute_parallel self (take i tasks) st)) \<noteq> None"
    using j by (simp add: execute_parallel_snd)
qed

theorem parallel_snapshot_witness:
  "result (fst (execute_parallel echo_scheduler [code_task, hello_task] start) ! 1)
     = prepare_task_prompt hello_task []
   \<and> shared_context_get (cps ''task_a_result'')
       (snd (execute_parallel echo_scheduler (take 1 [code_task, hello_task]) start))
     = Some (Str (cps ''print(1)''))"
proof -
  let ?run = "execute_parallel echo_scheduler [code_task, hello_task] start"
  have e: "?run = (fst ?run, snd ?run)" by simp
  have i: "1 < length [code_task, hello_task]" by simp
  from parallel_snapshot [OF e i]
  have "fst ?run ! 1 =
           fst (execute_task echo_scheduler ([code_task, hello_task] ! 1) (get_all start)
                  ((snd (execute_parallel echo_scheduler (take 1 [code_task, hello_task]) start))
                     \<lparr>shared_context := shared_context start\<rparr>))"
    by blast
  then have "result (fst ?run ! 1) = prepare_task_prompt hello_task []"
    by (simp add: example_defs)
  moreover have "shared_context_get (cps ''task_a_result'')
       (snd (execute_parallel echo_scheduler (take 1 [code_task, hello_task]) start))
     = Some (Str (cps ''print(1)''))"
    by (simp add: example_defs)
  ultimately show ?thesis by simp
qed

section \<open>Ordering in a sequential run\<close>

text \<open>In a sequential run the second task does read what the first has written.\<close>

lemma sequential_sees_previous:
  "result (fst (execute_sequential echo_scheduler [code_task, hello_task] start) ! 1)
     = prepare_task_prompt hello_task
         [(cps ''task_a_result'', Str (cps ''print(1)'')), (cps ''task_a_success'', Bool True)]"
  by (simp add: example_defs Let_def)

lemma execute_sequential_append:
  "execute_sequential self (xs @ ys) st =
     (case execute_sequential self xs st of (r1, s1) \<Rightarrow>
      case execute_sequential self ys s1 of (r2, s2) \<Rightarrow> (r1 @ r2, s2))"
  by (induction xs arbitrary: st) (simp_all add: case_prod_beta Let_def)

lemma execute_sequential_keeps:
  "shared_context_get k st \<noteq> None \<Longrightarrow>
   shared_context_get k (snd (execute_sequential self tasks st)) \<noteq> None"
proof (induction tasks arbitrary: st)
  case Nil
  then show ?case by simp
next
  case (Cons t ts)
  let ?ctx = "get_all st"
  let ?s1 = "snd (execute_task self t ?ctx st)"
  have k1: "shared_context_get k ?s1 \<noteq> None" using Cons.prems by (rule execute_task_keeps)
  then have k2: "shared_context_get k
      (snd (execute_task self (t\<lparr>retry_count := retry_count t + 1\<rparr>) ?ctx ?s1)) \<noteq> None"
    by (rule execute_task_keeps)
  show ?case using Cons.IH [OF k1] Cons.IH [OF k2]
    by (simp add: case_prod_beta Let_def)
qed

lemma execute_sequential_written:
  "execute_sequential self tasks st = (rs, st') \<Longrightarrow>
   length rs = length tasks \<and>
   (\<forall>i<length tasks. error_message (rs ! i) = None \<longrightarrow>
      shared_context_get (cps ''task_'' @ task_id (tasks ! i) @ cps ''_result'') st' \<noteq> None \<and>
      shared_context_get (cps ''task_'' @ task_id (tasks ! i) @ cps ''_success'') st' \<noteq> None)"
proof (induction tasks arbitrary: st rs st')
  case Nil
  then show ?case by simp
next
  case (Cons t ts)
  let ?ctx = "get_all st"
  let ?t' = "t\<lparr>retry_count := retry_count t + 1\<rparr>"
  obtain r s1 where a1: "execute_task self t ?ctx st = (r, s1)" by (cases "execute_task self t ?ctx st")
  obtain r' s2 where a2: "(if \<not> success r \<and> retry_count t < max_retries t
            then execute_task self ?t' ?ctx s1 else (r, s1)) = (r', s2)"
    by (cases "if \<not> success r \<and> retry_count t < max_retries t
            then execute_task self ?t' ?ctx s1 else (r, s1)")
  obtain rest s3 where a3: "execute_sequential self ts s2 = (rest, s3)"
    by (cases "execute_sequential self ts s2")
  from Cons.prems a1 a2 a3 have rs: "rs = r' # rest" and st': "st' = s3" by (simp_all add: Let_def)
  from Cons.IH [OF a3] have len: "length rest = length ts"
    and IH: "\<And>i. i < length ts \<Longrightarrow> error_message (rest ! i) = None \<Longrightarrow>
      shared_context_get (cps ''task_'' @ task_id (ts ! i) @ cps ''_result'') s3 \<noteq> None \<and>
      shared_context_get (cps ''task_'' @ task_id (ts ! i) @ cps ''_success'') s3 \<noteq> None"
    by auto
  have head: "shared_context_get (cps ''task_'' @ task_id t @ cps ''_result'') s2 \<noteq> None \<and>
      shared_context_get (cps ''task_'' @ task_id t @ cps ''_success'') s2 \<noteq> None"
    if ok: "error_message r' = None"
  proof (cases "\<not> success r \<and> retry_count t < max_retries t")
    case True
    with a2 have e: "execute_task self ?t' ?ctx s1 = (r', s2)" by simp
    from execute_task_writes [of self ?t' ?ctx s1] ok e show ?thesis by simp
  next
    case False
    with a2 have "r' = r" "s2 = s1" by simp_all
    with execute_task_writes [of self t ?ctx st] ok a1 show ?thesis by simp
  qed
  show ?case
  proof (intro conjI allI impI)
    show "length rs = length (t # ts)" using rs len by simp
  next
    fix i assume i: "i < length (t # ts)" and ok: "error_message (rs ! i) = None"
    have "shared_context_get (cps ''task_'' @ task_id ((t # ts) ! i) @ cps ''_result'') st' \<noteq> None \<and>
      shared_context_get (cps ''task_'' @ task_id ((t # ts) ! i) @ cps ''_success'') st' \<noteq> None"
    proof (cases i)
      case 0
      with ok rs have "error_message r' = None" by simp
      from head [OF this] show ?thesis
        using execute_sequential_keeps [of _ s2 self ts] a3 st' 0 by simp
    next
      case (Suc j)
      with i ok rs have "j < length ts" "error_message (rest ! j) = None" by simp_all
      from IH [OF this] show ?thesis using Suc st' by simp
    qed
    then show "shared_context_get (cps ''task_'' @ task_id ((t # ts) ! i) @ cps ''_result'') st' \<noteq> None"
      and "shared_context_get (cps ''task_'' @ task_id ((t # ts) ! i) @ cps ''_success'') st' \<noteq> None"
      by simp_all
  qed
qed


lemma result_key_neq_any_success_key:
  "cps ''task_'' @ a @ cps ''_result'' \<noteq> cps ''task_'' @ b @ cps ''_success''"
proof
  assume "cps ''task_'' @ a @ cps ''_result'' = cps ''task_'' @ b @ cps ''_success''"
  then have "last (a @ cps ''_result'') = last (b @ cps ''_success'')" by simp
  then show False by (simp add: cps_def)
qed

lemma execute_task_writes_exact:
  assumes "error_message (fst (execute_task self task ctx st)) = None"
  shows "shared_context_get (cps ''task_'' @ task_id task @ cps ''_result'')
           (snd (execute_task self task ctx st))
         = Some (Str (result (fst (execute_task self task ctx st))))"
    and "shared_context_get (cps ''task_'' @ task_id task @ cps ''_success'')
           (snd (execute_task self task ctx st))
         = Some (Bool (success (fst (execute_task self task ctx st))))"
  using assms
  by (auto simp: execute_task_def Let_def shared_context_get_set failed_result_def cps_def
      split: prod.splits option.splits outcome.splits)

lemma execute_task_other_keys:
  assumes "k \<noteq> cps ''task_'' @ task_id task @ cps ''_result''"
    and "k \<noteq> cps ''task_'' @ task_id task @ cps ''_success''"
  shows "shared_context_get k (snd (execute_task self task ctx st)) = shared_context_get k st"
  using assms
  by (auto simp: execute_task_def Let_def shared_context_get_set
      split: prod.splits option.splits outcome.splits)

lemma execute_sequential_other_keys:
  "\<forall>t \<in> set ts. k \<noteq> cps ''task_'' @ task_id t @ cps ''_result''
      \<and> k \<noteq> cps ''task_'' @ task_id t @ cps ''_success'' \<Longrightarrow>
   shared_context_get k (snd (execute_sequential self ts st)) = shared_context_get k st"
proof (induction ts arbitrary: st)
  case Nil
  then show ?case by simp
next
  case (Cons t ts)
  let ?ctx = "get_all st"
  let ?s1 = "snd (execute_task self t ?ctx st)"
  let ?t' = "t\<lparr>retry_count := retry_count t + 1\<rparr>"
  have k: "k \<noteq> cps ''task_'' @ task_id t @ cps ''_result''"
    "k \<noteq> cps ''task_'' @ task_id t @ cps ''_success''" using Cons.prems by auto
  have a: "shared_context_get k ?s1 = shared_context_get k st"
    using k by (rule execute_task_other_keys)
  have b: "shared_context_get k (snd (execute_task self ?t' ?ctx ?s1)) = shared_context_get k st"
    using execute_task_other_keys [of k ?t' self ?ctx ?s1] k a by simp
  have rest: "shared_context_get k (snd (execute_sequential self ts s)) = shared_context_get k s"
    for s using Cons.IH Cons.prems by simp
  show ?case by (simp add: case_prod_beta Let_def rest a b)
qed

lemma execute_sequential_single_written:
  assumes "execute_sequential self [t] st = ([r], st')" and "error_message r = None"
  shows "shared_context_get (cps ''task_'' @ task_id t @ cps ''_result'') st' = Some (Str (result r))"
    and "shared_context_get (cps ''task_'' @ task_id t @ cps ''_success'') st' = Some (Bool (success r))"
proof -
  let ?ctx = "get_all st"
  let ?t' = "t\<lparr>retry_count := retry_count t + 1\<rparr>"
  let ?r1 = "fst (execute_task self t ?ctx st)"
  let ?s1 = "snd (execute_task self t ?ctx st)"
  have "shared_context_get (cps ''task_'' @ task_id t @ cps ''_result'') st' = Some (Str (result r))
    \<and> shared_context_get (cps ''task_'' @ task_id t @ cps ''_success'') st' = Some (Bool (success r))"
  proof (cases "\<not> success ?r1 \<and> retry_count t < max_retries t")
    case True
    with assms(1) have r: "r = fst (execute_task self ?t' ?ctx ?s1)"
      and s: "st' = snd (execute_task self ?t' ?ctx ?s1)"
      by (simp_all add: case_prod_beta Let_def)
    from execute_task_writes_exact [of self ?t' ?ctx ?s1] assms(2) r s show ?thesis by simp
  next
    case False
    with assms(1) have r: "r = ?r1" and s: "st' = ?s1"
      by (auto simp: case_prod_beta Let_def)
    from execute_task_writes_exact [of self t ?ctx st] assms(2) r s show ?thesis by simp
  qed
  then show "shared_context_get (cps ''task_'' @ task_id t @ cps ''_result'') st' = Some (Str (result r))"
    and "shared_context_get (cps ''task_'' @ task_id t @ cps ''_success'') st' = Some (Bool (success r))"
    by simp_all
qed

lemma execute_sequential_length:
  "length (fst (execute_sequential self ts st)) = length ts"
  by (induction ts arbitrary: st) (simp_all add: case_prod_beta Let_def)

lemma execute_sequential_split:
  assumes "execute_sequential self tasks st = (rs, st')" and "i < length tasks"
  shows "execute_sequential self (take i tasks) st
           = (take i rs, snd (execute_sequential self (take i tasks) st))"
    and "execute_sequential self [tasks ! i] (snd (execute_sequential self (take i tasks) st))
           = ([rs ! i], snd (execute_sequential self (take (Suc i) tasks) st))"
    and "execute_sequential self (drop (Suc i) tasks)
           (snd (execute_sequential self (take (Suc i) tasks) st))
           = (drop (Suc i) rs, st')"
proof -
  let ?a = "take i tasks" and ?c = "drop (Suc i) tasks"
  let ?ra = "execute_sequential self ?a st"
  let ?rb = "execute_sequential self [tasks ! i] (snd ?ra)"
  let ?rc = "execute_sequential self ?c (snd ?rb)"
  have t: "tasks = ?a @ [tasks ! i] @ ?c" using assms(2) by (simp add: id_take_nth_drop)
  have whole: "execute_sequential self tasks st = (fst ?ra @ fst ?rb @ fst ?rc, snd ?rc)"
    by (subst t) (simp only: execute_sequential_append case_prod_beta fst_conv snd_conv)
  have la: "length (fst ?ra) = i" using assms(2) by (simp add: execute_sequential_length)
  have "length (fst ?rb) = length [tasks ! i]" by (rule execute_sequential_length)
  then have lb: "length (fst ?rb) = 1" by simp
  from whole assms(1) have rs: "rs = fst ?ra @ fst ?rb @ fst ?rc" and st': "st' = snd ?rc" by simp_all
  from lb obtain r where r: "fst ?rb = [r]" by (cases "fst ?rb") auto
  have ta: "take i rs = fst ?ra" using rs la by simp
  have nth: "rs ! i = r" using rs la r by (simp add: nth_append)
  have dr: "drop (Suc i) rs = fst ?rc" using rs la r by simp
  have tsuc: "take (Suc i) tasks = ?a @ [tasks ! i]" using assms(2) by (simp add: take_Suc_conv_app_nth)
  have sb: "snd (execute_sequential self (take (Suc i) tasks) st) = snd ?rb"
    unfolding tsuc by (simp only: execute_sequential_append case_prod_beta snd_conv)
  show "execute_sequential self (take i tasks) st
           = (take i rs, snd (execute_sequential self (take i tasks) st))"
    using ta by (simp add: prod_eq_iff)
  show "execute_sequential self [tasks ! i] (snd (execute_sequential self (take i tasks) st))
           = ([rs ! i], snd (execute_sequential self (take (Suc i) tasks) st))"
    using r nth sb by (simp add: prod_eq_iff)
  show "execute_sequential self (drop (Suc i) tasks)
           (snd (execute_sequential self (take (Suc i) tasks) st))
           = (drop (Suc i) rs, st')"
    using dr st' sb by (simp add: prod_eq_iff)
qed


lemma execute_sequential_take:
  "fst (execute_sequential self (take n tasks) st) = take n (fst (execute_sequential self tasks st))"
proof -
  let ?a = "execute_sequential self (take n tasks) st"
  let ?b = "execute_sequential self (drop n tasks) (snd ?a)"
  have "execute_sequential self (take n tasks @ drop n tasks) st = (fst ?a @ fst ?b, snd ?b)"
    by (simp only: execute_sequential_append case_prod_beta)
  then have whole: "fst (execute_sequential self tasks st) = fst ?a @ fst ?b" by simp
  have la: "length (fst ?a) = length (take n tasks)" by (rule execute_sequential_length)
  show ?thesis
  proof (cases "n \<le> length tasks")
    case True
    with la have "length (fst ?a) = n" by simp
    with whole show ?thesis by simp
  next
    case False
    then have "drop n tasks = []" "take n tasks = tasks" by simp_all
    then show ?thesis using execute_sequential_length [of self tasks st] False by simp
  qed
qed

lemma result_key_inject:
  "(cps ''task_'' @ a @ cps ''_result'' = cps ''task_'' @ b @ cps ''_result'') = (a = b)"
  by simp

lemma success_key_inject:
  "(cps ''task_'' @ a @ cps ''_success'' = cps ''task_'' @ b @ cps ''_success'') = (a = b)"
  by simp

lemma execute_sequential_other_tasks:
  assumes "tid \<notin> task_id ` set ts"
  shows "shared_context_get (cps ''task_'' @ tid @ cps ''_result'') (snd (execute_sequential self ts st))
           = shared_context_get (cps ''task_'' @ tid @ cps ''_result'') st"
    and "shared_context_get (cps ''task_'' @ tid @ cps ''_success'') (snd (execute_sequential self ts st))
           = shared_context_get (cps ''task_'' @ tid @ cps ''_success'') st"
proof -
  show "shared_context_get (cps ''task_'' @ tid @ cps ''_result'') (snd (execute_sequential self ts st))
           = shared_context_get (cps ''task_'' @ tid @ cps ''_result'') st"
  proof (rule execute_sequential_other_keys, intro ballI conjI)
    fix t assume "t \<in> set ts"
    with assms have "tid \<noteq> task_id t" by auto
    then show "cps ''task_'' @ tid @ cps ''_result'' \<noteq> cps ''task_'' @ task_id t @ cps ''_result''"
      by simp
    show "cps ''task_'' @ tid @ cps ''_result'' \<noteq> cps ''task_'' @ task_id t @ cps ''_success''"
      by (rule result_key_neq_any_success_key)
  qed
  show "shared_context_get (cps ''task_'' @ tid @ cps ''_success'') (snd (execute_sequential self ts st))
           = shared_context_get (cps ''task_'' @ tid @ cps ''_success'') st"
  proof (rule execute_sequential_other_keys, intro ballI conjI)
    fix t assume "t \<in> set ts"
    with assms have "tid \<noteq> task_id t" by auto
    then show "cps ''task_'' @ tid @ cps ''_success'' \<noteq> cps ''task_'' @ task_id t @ cps ''_success''"
      by simp
    show "cps ''task_'' @ tid @ cps ''_success'' \<noteq> cps ''task_'' @ task_id t @ cps ''_result''"
      using result_key_neq_any_success_key [of "task_id t" tid] by (rule not_sym)
  qed
qed

text \<open>
  Claim C2, as the code has it. Let a sequential run (pipeline mode is a sequential run of
  the sorted list) have gone through the tasks \<open>pre\<close>, with the results \<open>rs1\<close>, and be in
  the state \<open>st1\<close>. The next task \<open>b\<close> starts there: its first attempt, and its retry, are
  given the context \<open>get_all st1\<close>. Let task \<open>i\<close> of \<open>pre\<close> have a result without an
  error message, so that its last attempt returned. Then the run passes through a state
  \<open>mid\<close>, reached when the attempts of task \<open>i\<close> are over and from which the tasks after
  \<open>i\<close> start, where \<open>task_<id>_result\<close> holds the result of that \<open>TaskResult\<close> and
  \<open>task_<id>_success\<close> its success flag. Both keys are still bound in \<open>st1\<close>, and they are
  bound to the same two values there unless a task after \<open>i\<close> has the identifier of
  task \<open>i\<close>. Nothing is stated for a task whose result carries an error message.
\<close>

theorem sequential_ordering:
  assumes "execute_sequential self pre st = (rs1, st1)"
    and "i < length pre"
    and "error_message (rs1 ! i) = None"
  shows "map_of (get_all st1) (cps ''task_'' @ task_id (pre ! i) @ cps ''_result'') \<noteq> None
   \<and> map_of (get_all st1) (cps ''task_'' @ task_id (pre ! i) @ cps ''_success'') \<noteq> None
   \<and> execute_sequential self (pre @ b # post) st =
       (case execute_task self b (get_all st1) st1 of (r, st2) \<Rightarrow>
        case (if \<not> success r \<and> retry_count b < max_retries b
              then execute_task self (b\<lparr>retry_count := retry_count b + 1\<rparr>) (get_all st1) st2
              else (r, st2)) of (r', st3) \<Rightarrow>
        case execute_sequential self post st3 of (rs2, st4) \<Rightarrow> (rs1 @ r' # rs2, st4))
   \<and> (\<exists>mid.
        execute_sequential self (take (Suc i) pre) st = (take (Suc i) rs1, mid)
        \<and> execute_sequential self (drop (Suc i) pre) mid = (drop (Suc i) rs1, st1)
        \<and> map_of (get_all mid) (cps ''task_'' @ task_id (pre ! i) @ cps ''_result'')
            = Some (Str (result (rs1 ! i)))
        \<and> map_of (get_all mid) (cps ''task_'' @ task_id (pre ! i) @ cps ''_success'')
            = Some (Bool (success (rs1 ! i))))
   \<and> (task_id (pre ! i) \<notin> task_id ` set (drop (Suc i) pre) \<longrightarrow>
        map_of (get_all st1) (cps ''task_'' @ task_id (pre ! i) @ cps ''_result'')
          = Some (Str (result (rs1 ! i)))
        \<and> map_of (get_all st1) (cps ''task_'' @ task_id (pre ! i) @ cps ''_success'')
          = Some (Bool (success (rs1 ! i))))"
proof -
  let ?kr = "cps ''task_'' @ task_id (pre ! i) @ cps ''_result''"
  let ?ks = "cps ''task_'' @ task_id (pre ! i) @ cps ''_success''"
  let ?before = "snd (execute_sequential self (take i pre) st)"
  let ?done = "snd (execute_sequential self (take (Suc i) pre) st)"
  have get: "map_of (get_all s) k = shared_context_get k s" for s :: "'a state" and k
    by (simp add: shared_context_get_def get_all_def)
  note parts = execute_sequential_split [OF assms(1,2)]
  have one: "execute_sequential self [pre ! i] ?before = ([rs1 ! i], ?done)" by (rule parts(2))
  have rest: "execute_sequential self (drop (Suc i) pre) ?done = (drop (Suc i) rs1, st1)"
    by (rule parts(3))
  have upto: "execute_sequential self (take (Suc i) pre) st = (take (Suc i) rs1, ?done)"
    by (simp add: prod_eq_iff execute_sequential_take assms(1))
  have dr: "shared_context_get ?kr ?done = Some (Str (result (rs1 ! i)))"
    using one assms(3) by (rule execute_sequential_single_written(1))
  have ds: "shared_context_get ?ks ?done = Some (Bool (success (rs1 ! i)))"
    using one assms(3) by (rule execute_sequential_single_written(2))
  have st1: "st1 = snd (execute_sequential self (drop (Suc i) pre) ?done)" using rest by simp
  from execute_sequential_written [OF assms(1)] assms(2,3)
  have nr: "shared_context_get ?kr st1 \<noteq> None" and ns: "shared_context_get ?ks st1 \<noteq> None"
    by auto
  have run: "execute_sequential self (pre @ b # post) st =
       (case execute_task self b (get_all st1) st1 of (r, st2) \<Rightarrow>
        case (if \<not> success r \<and> retry_count b < max_retries b
              then execute_task self (b\<lparr>retry_count := retry_count b + 1\<rparr>) (get_all st1) st2
              else (r, st2)) of (r', st3) \<Rightarrow>
        case execute_sequential self post st3 of (rs2, st4) \<Rightarrow> (rs1 @ r' # rs2, st4))"
    by (simp add: execute_sequential_append assms(1) Let_def case_prod_beta)
  have later: "shared_context_get ?kr st1 = Some (Str (result (rs1 ! i)))
        \<and> shared_context_get ?ks st1 = Some (Bool (success (rs1 ! i)))"
    if "task_id (pre ! i) \<notin> task_id ` set (drop (Suc i) pre)"
    unfolding st1 using execute_sequential_other_tasks [OF that, of self ?done] dr ds by simp
  have ex: "\<exists>mid.
        execute_sequential self (take (Suc i) pre) st = (take (Suc i) rs1, mid)
        \<and> execute_sequential self (drop (Suc i) pre) mid = (drop (Suc i) rs1, st1)
        \<and> map_of (get_all mid) ?kr = Some (Str (result (rs1 ! i)))
        \<and> map_of (get_all mid) ?ks = Some (Bool (success (rs1 ! i)))"
    using upto rest dr ds unfolding get by (intro exI [of _ ?done] conjI)
  show ?thesis
    using nr ns run ex later unfolding get by (intro conjI impI) simp_all
qed

theorem sequential_ordering_witness:
  "map_of (get_all (snd (execute_sequential echo_scheduler [code_task] start))) (cps ''task_a_result'')
     \<noteq> None
   \<and> map_of (get_all (snd (execute_sequential echo_scheduler [code_task] start)))
       (cps ''task_a_success'') \<noteq> None
   \<and> map_of (get_all (snd (execute_sequential echo_scheduler [code_task] start)))
       (cps ''task_a_result'') = Some (Str (cps ''print(1)''))
   \<and> map_of (get_all (snd (execute_sequential echo_scheduler [code_task] start)))
       (cps ''task_a_success'') = Some (Bool True)"
proof -
  let ?run = "execute_sequential echo_scheduler [code_task] start"
  have e: "?run = (fst ?run, snd ?run)" by simp
  have i: "0 < length [code_task]" by simp
  have ok: "error_message (fst ?run ! 0) = None" by (simp add: example_defs)
  have id: "task_id ([code_task] ! 0) = cps ''a''" by (simp add: code_task_def new_task_def)
  have res: "result (fst ?run ! 0) = cps ''print(1)''" "success (fst ?run ! 0) = True"
    by (simp_all add: example_defs)
  from sequential_ordering [OF e i ok, of hello_task "[]"] show ?thesis
    unfolding id res by (simp add: cps_def)
qed

text \<open>
  The claim as it is written says that the result of every earlier task is in the shared
  context when the next prompt is made. The worker for \<open>code\<close> raises, at the first attempt
  and at the retry; nothing is stored under \<open>task_a_result\<close>, and the prompt that the next
  worker is given (it answers with its prompt) is the one made from an empty context.
\<close>

theorem sequential_raising_task_leaves_no_entry:
  "map_of (get_all (snd (execute_sequential raising_scheduler [code_task] start)))
     (cps ''task_a_result'') = None
   \<and> result (fst (execute_sequential raising_scheduler [code_task, hello_task] start) ! 1)
     = prepare_task_prompt hello_task []"
  by (simp add: example_defs)

text \<open>
  A result with an error message does not mean that the keys are absent: when the first
  attempt returns without success it writes its result, and when the retry then raises, the
  \<open>TaskResult\<close> of the task is the failed one of the retry while the keys hold what the
  first attempt wrote.
\<close>

lemma sequential_retry_raises_after_write:
  "error_message (fst (execute_sequential flaky_scheduler [code_task] start) ! 0) = Some (cps ''boom'')
   \<and> map_of (get_all (snd (execute_sequential flaky_scheduler [code_task] start)))
       (cps ''task_a_result'') = Some (Str (cps ''partial''))
   \<and> map_of (get_all (snd (execute_sequential flaky_scheduler [code_task] start)))
       (cps ''task_a_success'') = Some (Bool False)"
  by (simp add: example_defs flaky_scheduler_def flaky_worker_def)

section \<open>Competitive execution\<close>

lemma fold_min_key:
  "fold (\<lambda>y best. if key y < key best then y else best) xs x \<in> set (x # xs)
   \<and> (\<forall>y \<in> set (x # xs). key (fold (\<lambda>y best. if key y < key best then y else best) xs x) \<le> (key y :: real))"
proof (induction xs arbitrary: x)
  case Nil
  then show ?case by simp
next
  case (Cons a xs)
  let ?g = "\<lambda>y best. if key y < key best then y else best"
  let ?x' = "if key a < key x then a else x"
  from Cons [of ?x'] have mem: "fold ?g xs ?x' \<in> set (?x' # xs)"
    and le: "\<forall>y \<in> set (?x' # xs). key (fold ?g xs ?x') \<le> key y" by auto
  have xa: "key ?x' \<le> key a" and xx: "key ?x' \<le> key x" by auto
  from le have l0: "key (fold ?g xs ?x') \<le> key ?x'" by simp
  from l0 xa have la: "key (fold ?g xs ?x') \<le> key a" by (rule order_trans)
  from l0 xx have lx: "key (fold ?g xs ?x') \<le> key x" by (rule order_trans)
  from le have rest: "\<forall>y \<in> set xs. key (fold ?g xs ?x') \<le> key y" by simp
  from mem have "fold ?g xs ?x' \<in> set (x # a # xs)" by (auto split: if_splits)
  with la lx rest show ?case by simp
qed

lemma min_key_Some:
  "xs \<noteq> [] \<Longrightarrow> \<exists>m. min_key key xs = Some m \<and> m \<in> set xs \<and> (\<forall>y \<in> set xs. key m \<le> key y)"
  using fold_min_key [of key "tl xs" "hd xs"] by (cases xs) auto

lemma competitive_tasks_fields:
  "length (competitive_tasks d agent_types) = length agent_types"
  "map agent_type (competitive_tasks d agent_types) = agent_types"
  "map description (competitive_tasks d agent_types) = replicate (length agent_types) d"
  "map dependencies (competitive_tasks d agent_types) = replicate (length agent_types) []"
  unfolding competitive_tasks_def enumerate_eq_zip
  by (simp_all add: new_task_def case_prod_beta comp_def map_replicate_const)

lemma str_of_nat_digit: "n < 10 \<Longrightarrow> str_of_nat n = [48 + n]"
  by (simp add: str_of_nat.simps)

text \<open>
  Claim C5. Given at least one capability tag, competitive execution makes one task per
  tag, each with the same description, and runs them as one parallel batch; it always
  returns one of the results of the batch: when some result is successful, a successful
  one whose duration is least among the successful results, and otherwise the first
  result.
\<close>

theorem competitive_selection:
  assumes "agent_types \<noteq> []"
    and "execute_competitive self d agent_types st = (r, st')"
  shows "\<exists>results best.
      execute_parallel self (competitive_tasks d agent_types) st = (results, st')
      \<and> map agent_type (competitive_tasks d agent_types) = agent_types
      \<and> map description (competitive_tasks d agent_types) = replicate (length agent_types) d
      \<and> length results = length agent_types
      \<and> r = Some best \<and> best \<in> set results
      \<and> (if \<exists>x \<in> set results. success x
          then success best \<and> (\<forall>x \<in> set results. success x \<longrightarrow> execution_time best \<le> execution_time x)
          else best = results ! 0)"
proof -
  let ?tasks = "competitive_tasks d agent_types"
  obtain results s where run: "execute_parallel self ?tasks st = (results, s)"
    by (cases "execute_parallel self ?tasks st")
  have len: "length results = length agent_types"
    using execute_parallel_nth(1) [OF run] by (simp add: competitive_tasks_fields)
  then have ne: "results \<noteq> []" using assms(1) by auto
  have s: "s = st'" using assms(2) run by (simp add: execute_competitive_def Let_def split: if_splits)
  show ?thesis
  proof (cases "filter success results = []")
    case True
    then have none: "\<not> (\<exists>x \<in> set results. success x)" by (simp add: filter_empty_conv)
    from True assms(2) run ne have "r = Some (results ! 0)"
      by (cases results) (simp_all add: execute_competitive_def Let_def)
    moreover have "results ! 0 \<in> set results" using ne by simp
    ultimately show ?thesis using none run s len
      by (intro exI [of _ results] exI [of _ "results ! 0"])
         (simp add: competitive_tasks_fields)
  next
    case False
    then have some: "\<exists>x \<in> set results. success x" by (simp add: filter_empty_conv)
    from min_key_Some [OF False, of execution_time] obtain m where
      m: "min_key execution_time (filter success results) = Some m"
      and mem: "m \<in> set (filter success results)"
      and least: "\<forall>y \<in> set (filter success results). execution_time m \<le> execution_time y"
      by blast
    from False assms(2) run m have "r = Some m"
      by (simp add: execute_competitive_def Let_def)
    with some mem least run s len show ?thesis
      by (intro exI [of _ results] exI [of _ m])
         (simp add: competitive_tasks_fields)
  qed
qed

theorem competitive_selection_witness:
  "[cps ''code'', cps ''web''] \<noteq> []
   \<and> fst (execute_competitive rival_scheduler (cps ''Write a scraper'') [cps ''code'', cps ''web''] start)
     = Some \<lparr>result_task_id = cps ''competitive_0'', result_agent_type = cps ''code'',
             success = True, result = cps ''print(1)'', reasoning = cps ''wrote it'',
             execution_time = 1, error_message = None\<rparr>"
proof -
  let ?run = "execute_competitive rival_scheduler (cps ''Write a scraper'') [cps ''code'', cps ''web''] start"
  have ne: "[cps ''code'', cps ''web''] \<noteq> []" by simp
  have e: "?run = (fst ?run, snd ?run)" by simp
  have par: "fst (execute_parallel rival_scheduler
        (competitive_tasks (cps ''Write a scraper'') [cps ''code'', cps ''web'']) start) =
      [\<lparr>result_task_id = cps ''competitive_0'', result_agent_type = cps ''code'',
             success = True, result = cps ''print(1)'', reasoning = cps ''wrote it'',
             execution_time = 1, error_message = None\<rparr>,
       \<lparr>result_task_id = cps ''competitive_1'', result_agent_type = cps ''web'',
             success = False, result = [], reasoning = [],
             execution_time = 2, error_message = Some (cps ''no network'')\<rparr>]"
    by (simp add: rival_scheduler_def competitive_tasks_def example_defs str_of_nat_digit)
  let ?won = "\<lparr>result_task_id = cps ''competitive_0'', result_agent_type = cps ''code'',
             success = True, result = cps ''print(1)'', reasoning = cps ''wrote it'',
             execution_time = 1, error_message = None\<rparr>"
  from competitive_selection [OF ne e] obtain results best where
    run: "execute_parallel rival_scheduler
        (competitive_tasks (cps ''Write a scraper'') [cps ''code'', cps ''web'']) start = (results, snd ?run)"
    and best: "fst ?run = Some best" and mem: "best \<in> set results"
    and sel: "if \<exists>x \<in> set results. success x
          then success best \<and> (\<forall>x \<in> set results. success x \<longrightarrow> execution_time best \<le> execution_time x)
          else best = results ! 0"
    by blast
  from run par have results: "results = [?won, \<lparr>result_task_id = cps ''competitive_1'',
             result_agent_type = cps ''web'', success = False, result = [], reasoning = [],
             execution_time = 2, error_message = Some (cps ''no network'')\<rparr>]"
    by simp
  from sel have "success best" unfolding results by (simp split: if_splits)
  with mem have "best = ?won" unfolding results by auto
  with best show ?thesis by simp
qed


section \<open>The dependency sort of pipeline mode\<close>

lemma dom_task_dict_fold:
  "dom (fold (\<lambda>task d. d(task_id task \<mapsto> task)) tasks m) = dom m \<union> task_id ` set tasks"
  by (induction tasks arbitrary: m) auto

lemma dom_task_dict: "dom (task_dict tasks) = task_id ` set tasks"
  by (simp add: task_dict_def dom_task_dict_fold)

lemma finite_dom_task_dict: "finite (dom (task_dict tasks))"
  by (simp add: dom_task_dict)


lemma emitted_union: "S \<inter> T = {} \<Longrightarrow> emitted tasks (S \<union> T) = emitted tasks S + emitted tasks T"
  unfolding emitted_def by (rule multiset_eqI) auto

lemma emitted_all: "task_id ` set tasks \<subseteq> S \<Longrightarrow> emitted tasks S = mset tasks"
  unfolding emitted_def by (rule multiset_eqI) (auto simp: count_eq_zero_iff)

lemma emitted_none: "S \<inter> task_id ` set tasks = {} \<Longrightarrow> emitted tasks S = {#}"
  unfolding emitted_def by (rule multiset_eqI) (auto simp: count_eq_zero_iff)

lemma emitted_step:
  assumes "A \<subseteq> B" "B \<subseteq> C"
  shows "emitted tasks (C - A) = emitted tasks (B - A) + emitted tasks (C - B)"
proof -
  have "C - A = (B - A) \<union> (C - B)" "(B - A) \<inter> (C - B) = {}" using assms by auto
  then show ?thesis using emitted_union by metis
qed

lemma task_dict_fold_Some:
  "fold (\<lambda>task d. d(task_id task \<mapsto> task)) tasks m tid = Some task \<Longrightarrow>
   (task \<in> set tasks \<and> task_id task = tid) \<or> m tid = Some task"
proof (induction tasks arbitrary: m)
  case Nil
  then show ?case by simp
next
  case (Cons a tasks)
  from Cons.prems have "fold (\<lambda>task d. d(task_id task \<mapsto> task)) tasks (m(task_id a \<mapsto> a)) tid = Some task"
    by (simp only: fold.simps comp_apply)
  from Cons.IH [OF this] show ?case by (auto split: if_splits)
qed

lemma task_dict_Some: "task_dict tasks tid = Some task \<Longrightarrow> task \<in> set tasks \<and> task_id task = tid"
  using task_dict_fold_Some [of tasks Map.empty tid task] by (simp add: task_dict_def)

lemma filter_key_distinct:
  "distinct (map f xs) \<Longrightarrow> x \<in> set xs \<Longrightarrow> filter (\<lambda>t. f t = f x) xs = [x]"
proof (induction xs)
  case Nil
  then show ?case by simp
next
  case (Cons y ys)
  show ?case
  proof (cases "x = y")
    case True
    have "filter (\<lambda>t. f t = f y) ys = []"
      using Cons.prems(1) by (simp add: filter_empty_conv) (metis imageI)
    with True show ?thesis by simp
  next
    case False
    then have "x \<in> set ys" using Cons.prems by simp
    then have "f y \<noteq> f x" using Cons.prems(1) by auto
    then show ?thesis using Cons \<open>x \<in> set ys\<close> by simp
  qed
qed

lemma emitted_single:
  assumes "distinct (map task_id tasks)" "task_dict tasks tid = Some task"
  shows "emitted tasks {tid} = {#task#}"
proof -
  from task_dict_Some [OF assms(2)] have t: "task \<in> set tasks" "task_id task = tid" by auto
  have "filter (\<lambda>t. task_id t = task_id task) tasks = [task]"
    using assms(1) t(1) by (rule filter_key_distinct)
  then have "mset (filter (\<lambda>t. task_id t = tid) tasks) = {#task#}" using t(2) by simp
  then show ?thesis by (simp add: emitted_def)
qed

lemma execute_sequential_task_ids:
  "map result_task_id (fst (execute_sequential self tasks st)) = map task_id tasks"
proof (induction tasks arbitrary: st)
  case Nil
  then show ?case by simp
next
  case (Cons t ts)
  have "result_task_id (fst (execute_task self (t\<lparr>retry_count := retry_count t + 1\<rparr>) c s)) = task_id t"
    for c s by (simp only: execute_task_task_id) simp
  then show ?case using Cons.IH by (simp add: case_prod_beta Let_def)
qed

lemma visit_grows:
  "visit tasks n tid st = Inr st' \<Longrightarrow> fst st \<subseteq> fst st'"
  "visit_deps tasks n deps st = Inr st' \<Longrightarrow> fst st \<subseteq> fst st'"
proof (induction tasks n tid st and tasks n deps st arbitrary: st' and st'
    rule: visit_visit_deps.induct)
  case (1 tasks tid st)
  then show ?case by simp
next
  case (2 tasks frames tid visited res)
  show ?case
  proof (cases "tid \<in> visited")
    case True
    with "2.prems" show ?thesis by auto
  next
    case False
    show ?thesis
    proof (cases "task_dict tasks tid")
      case None
      with False "2.prems" show ?thesis by auto
    next
      case (Some task)
      obtain v1 r1 where inner:
        "visit_deps tasks frames (dependencies task) (insert tid visited, res) = Inr (v1, r1)"
        and st': "st' = (v1, r1 @ [task])"
        using "2.prems" False Some by (auto split: sum.splits)
      from "2.IH" [OF False Some inner] have "insert tid visited \<subseteq> v1" by simp
      with st' show ?thesis by auto
    qed
  qed
next
  case (3 tasks frames st)
  then show ?case by simp
next
  case (4 tasks frames dep_id deps st)
  obtain st1 where st1: "visit tasks frames dep_id st = Inr st1"
    and rest: "visit_deps tasks frames deps st1 = Inr st'"
    using "4.prems" by (auto split: sum.splits)
  from "4.IH"(1) [OF st1] "4.IH"(2) [OF st1 rest] show ?case by auto
qed

lemma visit_returns:
  "card (dom (task_dict tasks) - fst st) < n \<Longrightarrow> \<exists>st'. visit tasks n tid st = Inr st'"
  "card (dom (task_dict tasks) - fst st) < n \<Longrightarrow> \<exists>st'. visit_deps tasks n deps st = Inr st'"
proof (induction tasks n tid st and tasks n deps st rule: visit_visit_deps.induct)
  case (1 tasks tid st)
  then show ?case by simp
next
  case (2 tasks frames tid visited res)
  show ?case
  proof (cases "tid \<in> visited")
    case True
    then show ?thesis by simp
  next
    case False
    show ?thesis
    proof (cases "task_dict tasks tid")
      case None
      with False show ?thesis by simp
    next
      case (Some task)
      have "dom (task_dict tasks) - insert tid visited \<subset> dom (task_dict tasks) - visited"
        using False Some by auto
      then have "card (dom (task_dict tasks) - insert tid visited)
          < card (dom (task_dict tasks) - visited)"
        by (intro psubset_card_mono) (simp_all add: finite_dom_task_dict)
      with "2.prems" have "card (dom (task_dict tasks) - fst (insert tid visited, res)) < frames"
        by simp
      from "2.IH" [OF False Some this] obtain st' where
        "visit_deps tasks frames (dependencies task) (insert tid visited, res) = Inr st'" by blast
      with False Some show ?thesis by (cases st') simp
    qed
  qed
next
  case (3 tasks frames st)
  then show ?case by simp
next
  case (4 tasks frames dep_id deps st)
  from "4.IH"(1) [OF "4.prems"] obtain st1 where st1: "visit tasks frames dep_id st = Inr st1"
    by blast
  from visit_grows(1) [OF st1] have "fst st \<subseteq> fst st1" .
  then have "card (dom (task_dict tasks) - fst st1) \<le> card (dom (task_dict tasks) - fst st)"
    by (intro card_mono) (auto simp: finite_dom_task_dict)
  with "4.prems" have "card (dom (task_dict tasks) - fst st1) < frames" by simp
  from "4.IH"(2) [OF st1 this] show ?case by (simp add: st1)
qed

lemma visit_tasks_returns:
  "card (dom (task_dict tasks) - fst st) < n \<Longrightarrow> \<exists>st'. visit_tasks tasks n ts st = Inr st'"
proof (induction ts arbitrary: st)
  case Nil
  then show ?case by simp
next
  case (Cons t ts)
  from visit_returns(1) [OF Cons.prems] obtain st1 where
    st1: "visit tasks n (task_id t) st = Inr st1" by blast
  from visit_grows(1) [OF st1] have "fst st \<subseteq> fst st1" .
  then have "card (dom (task_dict tasks) - fst st1) \<le> card (dom (task_dict tasks) - fst st)"
    by (intro card_mono) (auto simp: finite_dom_task_dict)
  with Cons.prems have "card (dom (task_dict tasks) - fst st1) < n" by simp
  from Cons.IH [OF this] show ?case by (simp add: st1)
qed

lemma visit_emits:
  "distinct (map task_id tasks) \<Longrightarrow> visit tasks n tid st = Inr st' \<Longrightarrow>
           fst st \<subseteq> fst st' \<and> tid \<in> fst st'
           \<and> mset (snd st') = mset (snd st) + emitted tasks (fst st' - fst st)"
  "distinct (map task_id tasks) \<Longrightarrow> visit_deps tasks n deps st = Inr st' \<Longrightarrow>
           fst st \<subseteq> fst st'
           \<and> mset (snd st') = mset (snd st) + emitted tasks (fst st' - fst st)"
proof (induction tasks n tid st and tasks n deps st arbitrary: st' and st'
    rule: visit_visit_deps.induct)
  case (1 tasks tid st)
  then show ?case by simp
next
  case (2 tasks frames tid visited res)
  show ?case
  proof (cases "tid \<in> visited")
    case True
    with "2.prems" show ?thesis by (auto simp: emitted_def)
  next
    case False
    show ?thesis
    proof (cases "task_dict tasks tid")
      case None
      then have "tid \<notin> task_id ` set tasks" using dom_task_dict [of tasks] by (auto simp: domIff)
      then have "emitted tasks (insert tid visited - visited) = {#}"
        by (intro emitted_none) auto
      with False None "2.prems" show ?thesis by auto
    next
      case (Some task)
      note d = "2.prems"(1)
      obtain v1 r1 where inner:
        "visit_deps tasks frames (dependencies task) (insert tid visited, res) = Inr (v1, r1)"
        and st': "st' = (v1, r1 @ [task])"
        using "2.prems"(2) False Some by (auto split: sum.splits)
      from "2.IH" [OF False Some d inner]
      have sub: "insert tid visited \<subseteq> v1"
        and ms: "mset r1 = mset res + emitted tasks (v1 - insert tid visited)" by auto
      have "v1 - visited = (v1 - insert tid visited) \<union> {tid}" "(v1 - insert tid visited) \<inter> {tid} = {}"
        using sub False by auto
      then have "emitted tasks (v1 - visited) = emitted tasks (v1 - insert tid visited) + emitted tasks {tid}"
        using emitted_union by metis
      also have "emitted tasks {tid} = {#task#}"
        using d Some by (rule emitted_single)
      finally show ?thesis using sub ms st' by auto
    qed
  qed
next
  case (3 tasks frames st)
  then show ?case by (auto simp: emitted_def)
next
  case (4 tasks frames dep_id deps st)
  note d = "4.prems"(1)
  obtain st1 where st1: "visit tasks frames dep_id st = Inr st1"
    and rest: "visit_deps tasks frames deps st1 = Inr st'"
    using "4.prems"(2) by (auto split: sum.splits)
  from "4.IH"(1) [OF d st1]
  have a: "fst st \<subseteq> fst st1"
    and ma: "mset (snd st1) = mset (snd st) + emitted tasks (fst st1 - fst st)" by auto
  from "4.IH"(2) [OF st1 d rest]
  have b: "fst st1 \<subseteq> fst st'"
    and mb: "mset (snd st') = mset (snd st1) + emitted tasks (fst st' - fst st1)"
    by auto
  show ?case using a b ma mb emitted_step [OF a b, of tasks] by auto
qed

lemma visit_tasks_emits:
  assumes d: "distinct (map task_id tasks)"
  shows "visit_tasks tasks n ts st = Inr st' \<Longrightarrow>
           fst st \<subseteq> fst st' \<and> task_id ` set ts \<subseteq> fst st'
           \<and> mset (snd st') = mset (snd st) + emitted tasks (fst st' - fst st)"
proof (induction ts arbitrary: st)
  case Nil
  then show ?case by (auto simp: emitted_def)
next
  case (Cons t ts)
  obtain st1 where st1: "visit tasks n (task_id t) st = Inr st1"
    and rest: "visit_tasks tasks n ts st1 = Inr st'"
    using Cons.prems by (auto split: sum.splits)
  from visit_emits(1) [OF d st1]
  have a: "fst st \<subseteq> fst st1" and t: "task_id t \<in> fst st1"
    and ma: "mset (snd st1) = mset (snd st) + emitted tasks (fst st1 - fst st)" by auto
  from Cons.IH [OF rest]
  have b: "fst st1 \<subseteq> fst st'" and ts: "task_id ` set ts \<subseteq> fst st'"
    and mb: "mset (snd st') = mset (snd st1) + emitted tasks (fst st' - fst st1)" by auto
  show ?case using a b t ts ma mb emitted_step [OF a b, of tasks] by auto
qed

lemma sort_permutation:
  assumes "distinct (map task_id tasks)" and "sort_tasks_by_dependencies frames tasks = Inr ordered"
  shows "mset ordered = mset tasks"
proof -
  from assms(2) obtain v where run: "visit_tasks tasks frames tasks ({}, []) = Inr (v, ordered)"
    by (auto simp: sort_tasks_by_dependencies_def split: sum.splits)
  from visit_tasks_emits [OF assms(1) run]
  have "task_id ` set tasks \<subseteq> v" and "mset ordered = emitted tasks v" by auto
  then show ?thesis by (simp add: emitted_all)
qed

lemma sort_returns:
  assumes "length tasks < frames"
  shows "\<exists>ordered. sort_tasks_by_dependencies frames tasks = Inr ordered"
proof -
  have "card (dom (task_dict tasks)) \<le> length tasks"
    unfolding dom_task_dict by (metis card_image_le card_length le_trans List.finite_set)
  with assms have "card (dom (task_dict tasks) - fst ({} :: pystr set, [] :: AgentTask list)) < frames"
    by simp
  from visit_tasks_returns [OF this, of tasks] obtain st' where
    "visit_tasks tasks frames tasks ({}, []) = Inr st'" by blast
  then show ?thesis by (cases st') (simp add: sort_tasks_by_dependencies_def)
qed


lemma task_dict_distinct:
  assumes "distinct (map task_id tasks)" and "t \<in> set tasks"
  shows "task_dict tasks (task_id t) = Some t"
proof -
  have "task_id t \<in> dom (task_dict tasks)" using assms(2) by (simp add: dom_task_dict)
  then obtain t' where t': "task_dict tasks (task_id t) = Some t'" by blast
  from task_dict_Some [OF t'] have "t' \<in> set tasks" "task_id t' = task_id t" by auto
  moreover have "inj_on task_id (set tasks)" using assms(1) by (simp add: distinct_map)
  ultimately have "t' = t" using assms(2) by (auto dest: inj_onD)
  with t' show ?thesis by simp
qed

lemma chain_id_inject [simp]: "chain_id i = chain_id j \<longleftrightarrow> i = j"
proof
  assume "chain_id i = chain_id j"
  then have "length (chain_id i) = length (chain_id j)" by simp
  then show "i = j" by (simp add: chain_id_def)
qed simp

lemma task_id_chain_task [simp]: "task_id (chain_task i) = chain_id i"
  by (simp add: chain_task_def new_task_def)

lemma dependencies_chain_task [simp]: "dependencies (chain_task i) = [chain_id (Suc i)]"
  by (simp add: chain_task_def new_task_def)

lemma distinct_chain: "distinct (map task_id (chain n))"
  by (simp add: chain_def distinct_map inj_on_def comp_def)

lemma task_dict_chain: "i < m \<Longrightarrow> task_dict (chain m) (chain_id i) = Some (chain_task i)"
  using task_dict_distinct [OF distinct_chain, of "chain_task i" m] by (simp add: chain_def)

lemma visit_chain_overflows:
  "n \<le> m - i \<Longrightarrow> i \<le> m \<Longrightarrow> \<forall>j. i \<le> j \<and> j < m \<longrightarrow> chain_id j \<notin> visited \<Longrightarrow>
   visit (chain m) n (chain_id i) (visited, res) = Inl RecursionError"
proof (induction n arbitrary: i visited res)
  case 0
  then show ?case by simp
next
  case (Suc n)
  then have i: "i < m" by simp
  with Suc.prems have fresh: "chain_id i \<notin> visited" by simp
  have "visit (chain m) n (chain_id (Suc i)) (insert (chain_id i) visited, res)
      = Inl RecursionError"
  proof (rule Suc.IH)
    show "n \<le> m - Suc i" using Suc.prems(1) by simp
    show "Suc i \<le> m" using i by simp
    show "\<forall>j. Suc i \<le> j \<and> j < m \<longrightarrow> chain_id j \<notin> insert (chain_id i) visited"
      using Suc.prems(3) by auto
  qed
  then show ?case using fresh i by (simp add: task_dict_chain)
qed

lemma sort_chain_overflows:
  assumes "0 < m" and "n \<le> m"
  shows "sort_tasks_by_dependencies n (chain m) = Inl RecursionError"
proof -
  have v: "visit (chain m) n (task_id (chain_task 0)) ({}, []) = Inl RecursionError"
    using visit_chain_overflows [of n m 0 "{}" "[]"] assms(2) by simp
  have "chain m = chain_task 0 # map chain_task [1..<m]"
    using assms(1) by (simp add: chain_def upt_conv_Cons)
  then obtain rest where c: "chain m = chain_task 0 # rest" by blast
  have "visit_tasks (chain m) n (chain_task 0 # rest) ({}, []) = Inl RecursionError"
    using v by simp
  then show ?thesis unfolding sort_tasks_by_dependencies_def
    by (subst (2) c) simp
qed

text \<open>
  Claim C10, as the code has it. Let the identifiers of the tasks be pairwise distinct.
  Whenever the dependency sort returns a list, that list holds the tasks of the input, each
  exactly once, whatever the dependency lists are (cycles, identifiers that no task has).
  It does return when the list is shorter than the number of nested calls that the
  interpreter still allows; pipeline mode then runs the sorted list sequentially and gives
  one result for every task.
\<close>

theorem sort_tasks_by_dependencies_permutation:
  assumes "distinct (map task_id tasks)"
  shows "(length tasks < frames \<longrightarrow>
           (\<exists>ordered. sort_tasks_by_dependencies frames tasks = Inr ordered
              \<and> mset ordered = mset tasks
              \<and> execute_pipeline frames self tasks st = Inr (execute_sequential self ordered st)
              \<and> mset (map result_task_id (fst (execute_sequential self ordered st)))
                  = mset (map task_id tasks)))
     \<and> (\<forall>ordered. sort_tasks_by_dependencies frames tasks = Inr ordered \<longrightarrow>
           mset ordered = mset tasks)"
proof (intro conjI impI allI)
  assume "length tasks < frames"
  then obtain ordered where s: "sort_tasks_by_dependencies frames tasks = Inr ordered"
    using sort_returns by blast
  from assms s have perm: "mset ordered = mset tasks" by (rule sort_permutation)
  have "mset (map result_task_id (fst (execute_sequential self ordered st)))
      = mset (map task_id ordered)"
    by (simp add: execute_sequential_task_ids)
  also have "\<dots> = mset (map task_id tasks)" using perm by (metis mset_map)
  finally show "\<exists>ordered. sort_tasks_by_dependencies frames tasks = Inr ordered
              \<and> mset ordered = mset tasks
              \<and> execute_pipeline frames self tasks st = Inr (execute_sequential self ordered st)
              \<and> mset (map result_task_id (fst (execute_sequential self ordered st)))
                  = mset (map task_id tasks)"
    using s perm by (simp add: execute_pipeline_def)
next
  fix ordered assume "sort_tasks_by_dependencies frames tasks = Inr ordered"
  with assms show "mset ordered = mset tasks" by (rule sort_permutation)
qed

theorem sort_tasks_by_dependencies_permutation_witness:
  "distinct (map task_id cyclic_tasks)
   \<and> (\<exists>ordered. sort_tasks_by_dependencies 1000 cyclic_tasks = Inr ordered
          \<and> mset ordered = mset cyclic_tasks)"
proof -
  have d: "distinct (map task_id cyclic_tasks)"
    by (simp add: cyclic_tasks_def new_task_def cps_def)
  have l: "length cyclic_tasks < 1000" by (simp add: cyclic_tasks_def)
  from sort_tasks_by_dependencies_permutation [OF d, of 1000] l d show ?thesis by blast
qed

text \<open>The order for the three example tasks: the cycle is cut where it is entered.\<close>

lemma sort_cyclic_tasks:
  "map_sum id (map task_id) (sort_tasks_by_dependencies 4 cyclic_tasks)
     = Inr [cps ''b'', cps ''a'', cps ''c'']"
  by (simp add: sort_tasks_by_dependencies_def cyclic_tasks_def new_task_def task_dict_def
      cps_def eval_nat_numeral)

text \<open>
  The claim as it is written says that the sort returns a permutation for every task list
  with distinct identifiers. A chain of 1000 tasks, each depending on the next, needs more
  than 1000 nested calls of \<open>visit\<close>: with the recursion limit of 1000 the sort raises
  \<open>RecursionError\<close> and returns no list.
\<close>

theorem sort_chain_recursion_error:
  "distinct (map task_id (chain 1000))
   \<and> sort_tasks_by_dependencies 1000 (chain 1000) = Inl RecursionError"
  using distinct_chain [of 1000] sort_chain_overflows [of 1000 1000] by simp

section \<open>An empty decomposition\<close>

text \<open>
  When the decomposition of the text gives no task, \<open>execute_collaborative_task\<close> returns
  \<open>None\<close> in every mode and leaves the state as it is: no worker is called and nothing
  else is tried.
\<close>

lemma execute_collaborative_task_empty:
  "decompose_collaborative_task tbl text = [] \<Longrightarrow>
   execute_collaborative_task tbl list_set frames self text mode st = Inr (None, st)"
  by (simp add: execute_collaborative_task_def)

lemma execute_collaborative_task_full_stops:
  "decompose_collaborative_task caseless (cps ''...'') = []
   \<and> execute_collaborative_task caseless remdups 1000 echo_scheduler (cps ''...'') SEQUENTIAL start
       = Inr (None, start)"
  by (simp add: execute_collaborative_task_def decompose_collaborative_task_def strip_def
      isspace_def cps_def)

text \<open>
  With the detector and the decomposer as they are, the case does not arise for a text that
  the detector has flagged: every word the detector looks for begins with a code point
  that is neither white space nor a full stop, so a flagged text has a piece that is not
  empty (the case table of the interpreter gives white space for white space). The branch
  above is reached only when \<open>execute_collaborative_task\<close> is handed a text that the
  detector does not flag.
\<close>

lemma detect_finds_word:
  assumes "detect_collaborative_task tbl text"
  shows "\<exists>k \<in> set (collaboration_keywords @ strong_keywords @ action_words).
           py_in k (str_lower tbl text)"
proof -
  let ?l = "str_lower tbl text"
  from assms consider
      "filter (\<lambda>k. py_in k ?l) collaboration_keywords \<noteq> []"
    | "list_ex (\<lambda>k. py_in k ?l) strong_keywords"
    | "3 \<le> length (filter (\<lambda>w. py_in w ?l) action_words)"
    by (auto simp: detect_collaborative_task_def Let_def split: if_splits)
  then show ?thesis
  proof cases
    case 1
    then show ?thesis by (auto simp: filter_empty_conv)
  next
    case 2
    then show ?thesis by (auto simp: list_ex_iff)
  next
    case 3
    then have "filter (\<lambda>w. py_in w ?l) action_words \<noteq> []" by auto
    then show ?thesis by (auto simp: filter_empty_conv)
  qed
qed

lemma words_start_with_a_letter:
  "k \<in> set (collaboration_keywords @ strong_keywords @ action_words) \<Longrightarrow>
   k \<noteq> [] \<and> \<not> isspace (hd k) \<and> hd k \<noteq> 46"
  by (simp add: collaboration_keywords_def strong_keywords_def action_words_def cps_def)
     (elim disjE; simp add: isspace_def)

lemma py_in_hd: "py_in k s \<Longrightarrow> k \<noteq> [] \<Longrightarrow> hd k \<in> set s"
  by (cases k) (auto simp: py_in_iff)

lemma lower_from_blank:
  assumes "\<And>pre c post x. 128 \<le> c \<Longrightarrow> isspace c \<Longrightarrow> x \<in> set (tbl pre c post) \<Longrightarrow> isspace x \<or> x = 46"
  shows "\<forall>c \<in> set s. isspace c \<or> c = 46 \<Longrightarrow>
         \<forall>x \<in> set (lower_from tbl pre s post). isspace x \<or> x = 46"
proof (induction s arbitrary: pre)
  case Nil
  then show ?case by simp
next
  case (Cons c s)
  have c: "isspace c \<or> c = 46" using Cons.prems by simp
  have "\<forall>x \<in> set (lower_cp tbl pre c (s @ post)). isspace x \<or> x = 46"
  proof (cases "128 \<le> c")
    case True
    with c have "isspace c" by auto
    with True assms show ?thesis by (auto simp: lower_cp_def)
  next
    case False
    with c have "\<not> (65 \<le> c \<and> c \<le> 90)" by (auto simp: isspace_def)
    with False c show ?thesis by (auto simp: lower_cp_def)
  qed
  moreover have "\<forall>x \<in> set (lower_from tbl (pre @ [c]) s post). isspace x \<or> x = 46"
    using Cons by simp
  ultimately show ?case by auto
qed

lemma str_split_covers:
  "c \<in> set s \<Longrightarrow> c \<noteq> sep \<Longrightarrow> \<exists>p \<in> set (str_split sep s). c \<in> set p"
  by (induction s) (auto split: list.splits)

lemma strip_nonempty: "c \<in> set p \<Longrightarrow> \<not> isspace c \<Longrightarrow> strip p \<noteq> []"
proof -
  assume c: "c \<in> set p" "\<not> isspace c"
  then have "dropWhile isspace p \<noteq> []" by (auto simp: dropWhile_eq_Nil_conv)
  then have "\<not> isspace (hd (dropWhile isspace p))" by (rule hd_dropWhile)
  moreover have "hd (dropWhile isspace p) \<in> set (rev (dropWhile isspace p))"
    using \<open>dropWhile isspace p \<noteq> []\<close> by simp
  ultimately have "dropWhile isspace (rev (dropWhile isspace p)) \<noteq> []"
    by (auto simp: dropWhile_eq_Nil_conv)
  then show ?thesis by (simp add: strip_def)
qed

lemma detected_text_decomposes:
  assumes "detect_collaborative_task tbl text"
    and "\<And>pre c post x. 128 \<le> c \<Longrightarrow> isspace c \<Longrightarrow> x \<in> set (tbl pre c post) \<Longrightarrow> isspace x \<or> x = 46"
  shows "decompose_collaborative_task tbl text \<noteq> []"
proof -
  from detect_finds_word [OF assms(1)] obtain k where
    k: "k \<in> set (collaboration_keywords @ strong_keywords @ action_words)"
    and kin: "py_in k (str_lower tbl text)" by blast
  from words_start_with_a_letter [OF k]
  have k1: "k \<noteq> []" and k2: "\<not> isspace (hd k)" and k3: "hd k \<noteq> 46" by simp_all
  from kin k1 have mem: "hd k \<in> set (lower_from tbl [] text [])"
    unfolding str_lower_def by (rule py_in_hd)
  have "\<not> (\<forall>c \<in> set text. isspace c \<or> c = 46)"
  proof
    assume "\<forall>c \<in> set text. isspace c \<or> c = 46"
    with assms(2) have "\<forall>x \<in> set (lower_from tbl [] text []). isspace x \<or> x = 46"
      by (rule lower_from_blank)
    with mem k2 k3 show False by blast
  qed
  then obtain c where c: "c \<in> set text" "\<not> isspace c" "c \<noteq> 46" by blast
  from str_split_covers [OF c(1) c(3)] obtain p where
    p: "p \<in> set (str_split 46 text)" "c \<in> set p" by blast
  have "strip p \<noteq> []" using p(2) c(2) by (rule strip_nonempty)
  with p(1) have "strip p \<in> set (filter (\<lambda>c. c \<noteq> []) (map strip (str_split 46 text)))"
    by simp
  then have "filter (\<lambda>c. c \<noteq> []) (map strip (str_split 46 text)) \<noteq> []"
    by (metis empty_iff list.set(1))
  then show ?thesis
    unfolding decompose_collaborative_task_def decompose_loop_eq
    by (simp add: enumerate_eq_zip filter_map)
qed

end
